theory Spec2Isabelle
  imports Main "HOL-Library.Sublist"
begin

section \<open>JavaScript strings\<close>

text \<open>
  A JavaScript string is a sequence of UTF-16 code units. A code unit is modelled as
  a natural number and a string as a list of them, so every theorem below holds for
  all sequences of code units. A literal of the source is written \<open>lit ''...''\<close>.
\<close>

type_synonym jschar = nat
type_synonym jsstring = "jschar list"

definition lit :: "string \<Rightarrow> jsstring" where
  "lit cs = map of_char cs"

text \<open>\<open>\n\<close> in a string or regular expression literal is U+000A.\<close>

definition NL :: jschar where
  "NL = 10"

text \<open>
  ECMAScript LineTerminator: U+000A, U+000D, U+2028, U+2029. Without the \<open>s\<close> flag,
  \<open>.\<close> matches every code unit except these.
\<close>

definition is_line_terminator :: "jschar \<Rightarrow> bool" where
  "is_line_terminator c = (c = 10 \<or> c = 13 \<or> c = 8232 \<or> c = 8233)"

text \<open>
  ECMAScript WhiteSpace (TAB, VT, FF, SP, NBSP, ZWNBSP and the code points of category
  Zs) together with LineTerminator: what \<open>String.prototype.trim\<close> strips.
\<close>

definition is_white_space :: "jschar \<Rightarrow> bool" where
  "is_white_space c =
     (c = 9 \<or> c = 11 \<or> c = 12 \<or> c = 32 \<or> c = 160 \<or> c = 65279 \<or> c = 5760
      \<or> (8192 \<le> c \<and> c \<le> 8202) \<or> c = 8239 \<or> c = 8287 \<or> c = 12288
      \<or> is_line_terminator c)"

definition trim :: "jsstring \<Rightarrow> jsstring" where
  "trim s = rev (dropWhile is_white_space (rev (dropWhile is_white_space s)))"

text \<open>\<open>Number.prototype.toString\<close> on a non-negative integer: its decimal digits.\<close>

fun digits :: "nat \<Rightarrow> jsstring" where
  "digits n = (if n < 10 then [48 + n] else digits (n div 10) @ [48 + n mod 10])"

declare digits.simps [simp del]

section \<open>Regular expressions\<close>

text \<open>
  The fragment of ECMAScript patterns that the source uses: a literal character, the
  dot, concatenation, alternation \<open>a|b\<close>, the lazy star \<open>a*?\<close>, a numbered capturing
  group \<open>(a)\<close> and the assertion \<open>$\<close> (no \<open>m\<close> flag: end of input only). A
  non-capturing group \<open>(?:a)\<close> is its body.
\<close>

datatype rx =
    Eps
  | Chr jschar
  | Dot
  | Seq rx rx
  | Alt rx rx
  | LazyStar rx
  | Group nat rx
  | EndAnchor

text \<open>Captures: the most recent binding of a group number comes first.\<close>

type_synonym caps = "(nat \<times> jsstring) list"

type_synonym mres = "(jsstring \<times> caps) option"

text \<open>
  The backtracking matcher of the ECMAScript specification, in its own continuation
  style: \<open>matcher r s c k\<close> matches \<open>r\<close> at the front of the remaining input \<open>s\<close> with
  captures \<open>c\<close> and hands the rest of the input to the continuation \<open>k\<close>; \<open>None\<close> is
  failure, which makes the caller try its next alternative. A lazy star first tries
  the continuation and only then one more iteration; an iteration that consumes
  nothing is rejected, as RepeatMatcher does.
\<close>

function matcher :: "rx \<Rightarrow> jsstring \<Rightarrow> caps \<Rightarrow> (jsstring \<Rightarrow> caps \<Rightarrow> mres) \<Rightarrow> mres" where
  "matcher Eps s c k = k s c"
| "matcher (Chr a) s c k = (case s of [] \<Rightarrow> None | x # xs \<Rightarrow> if x = a then k xs c else None)"
| "matcher Dot s c k =
     (case s of [] \<Rightarrow> None | x # xs \<Rightarrow> if is_line_terminator x then None else k xs c)"
| "matcher (Seq a b) s c k = matcher a s c (\<lambda>s' c'. matcher b s' c' k)"
| "matcher (Alt a b) s c k = (case matcher a s c k of Some r \<Rightarrow> Some r | None \<Rightarrow> matcher b s c k)"
| "matcher (LazyStar a) s c k =
     (case k s c of
        Some r \<Rightarrow> Some r
      | None \<Rightarrow> matcher a s c (\<lambda>s' c'. if length s' < length s then matcher (LazyStar a) s' c' k else None))"
| "matcher (Group i a) s c k =
     matcher a s c (\<lambda>s' c'. k s' ((i, take (length s - length s') s) # c'))"
| "matcher EndAnchor s c k = (if s = [] then k s c else None)"
  by pat_completeness auto
termination
  by (relation "measures [\<lambda>(r, s, c, k). size r, \<lambda>(r, s, c, k). length s]") auto

text \<open>The characters of a literal piece of a pattern, in sequence.\<close>

fun chars :: "jsstring \<Rightarrow> rx" where
  "chars [] = Eps"
| "chars (a # as) = Seq (Chr a) (chars as)"

text \<open>
  RegExpBuiltinExec from a given position: the match is tried at the position and then
  at each later one, up to and including the end of the input. The result is the
  matched substring, the captures and the input left after the match.
\<close>

fun regexp_exec :: "rx \<Rightarrow> jsstring \<Rightarrow> (jsstring \<times> caps \<times> jsstring) option" where
  "regexp_exec r s =
     (case matcher r s [] (\<lambda>s' c'. Some (s', c')) of
        Some (s', c') \<Rightarrow> Some (take (length s - length s') s, c', s')
      | None \<Rightarrow> (case s of [] \<Rightarrow> None | x # xs \<Rightarrow> regexp_exec r xs))"

declare regexp_exec.simps [simp del]

text \<open>
  A match never hands its continuation more input than it was given: the continuation
  sees a suffix of the input. The loops below terminate by this.
\<close>

lemma matcher_suffix:
  "matcher r s c k = Some res \<Longrightarrow> \<exists>s' c'. suffix s' s \<and> k s' c' = Some res"
proof (induction r s c k arbitrary: res rule: matcher.induct)
  case (1 s c k)
  then show ?case by auto
next
  case (2 a s c k)
  then show ?case by (auto split: list.splits if_splits simp: suffix_Cons)
next
  case (3 s c k)
  then show ?case by (auto split: list.splits if_splits simp: suffix_Cons)
next
  case (4 a b s c k)
  from 4(3) have "matcher a s c (\<lambda>s' c'. matcher b s' c' k) = Some res" by simp
  from 4(2)[OF this] obtain s1 c1 where s1: "suffix s1 s" "matcher b s1 c1 k = Some res" by blast
  from 4(1)[OF s1(2)] obtain s2 c2 where "suffix s2 s1" "k s2 c2 = Some res" by blast
  with s1(1) show ?case by (meson suffix_order.trans)
next
  case (5 a b s c k)
  then show ?case by (auto split: option.splits)
next
  case (6 a s c k)
  show ?case
  proof (cases "k s c")
    case (Some r)
    with 6(3) show ?thesis by auto
  next
    case None
    with 6(3) have "matcher a s c
        (\<lambda>s' c'. if length s' < length s then matcher (LazyStar a) s' c' k else None) = Some res"
      by simp
    from 6(2)[OF None this] obtain s1 c1 where s1: "suffix s1 s"
      "(if length s1 < length s then matcher (LazyStar a) s1 c1 k else None) = Some res" by blast
    then have l: "length s1 < length s" and mm: "matcher (LazyStar a) s1 c1 k = Some res"
      by (auto split: if_splits)
    from 6(1)[OF None l mm] obtain s2 c2 where "suffix s2 s1" "k s2 c2 = Some res" by blast
    with s1(1) show ?thesis by (meson suffix_order.trans)
  qed
next
  case (7 i a s c k)
  from 7(2) have "matcher a s c (\<lambda>s' c'. k s' ((i, take (length s - length s') s) # c')) = Some res"
    by simp
  from 7(1)[OF this] show ?case by blast
next
  case (8 s c k)
  then show ?case by (auto split: if_splits)
qed

lemma regexp_exec_length:
  "regexp_exec r s = Some (mt, c, rest) \<Longrightarrow>
     length rest \<le> length s \<and> (mt \<noteq> [] \<longrightarrow> length rest < length s)"
proof (induction r s rule: regexp_exec.induct)
  case (1 r s)
  show ?case
  proof (cases "matcher r s [] (\<lambda>s' c'. Some (s', c'))")
    case None
    with 1(2) obtain x xs where s: "s = x # xs" and e: "regexp_exec r xs = Some (mt, c, rest)"
      by (subst (asm) regexp_exec.simps) (auto split: list.splits)
    from 1(1)[OF None s e] s show ?thesis by auto
  next
    case (Some a)
    obtain s' c' where a: "a = (s', c')" by (cases a)
    from matcher_suffix[OF Some] a have suf: "suffix s' s" by auto
    from 1(2) Some a have "mt = take (length s - length s') s" "rest = s'"
      by (subst (asm) regexp_exec.simps, simp)+
    with suf show ?thesis by (auto simp: suffix_def)
  qed
qed

text \<open>
  \<open>String.prototype.match\<close> with a pattern that has the \<open>g\<close> flag: the matched
  substrings of all successive matches, each search starting where the previous match
  ended (one code unit further after an empty match). JavaScript returns \<open>null\<close>
  instead of an empty array.
\<close>

function match_all :: "rx \<Rightarrow> jsstring \<Rightarrow> jsstring list" where
  "match_all r s =
     (case regexp_exec r s of
        None \<Rightarrow> []
      | Some (mt, c, rest) \<Rightarrow>
          mt # (if mt = [] then (case rest of [] \<Rightarrow> [] | x # xs \<Rightarrow> match_all r xs)
                else match_all r rest))"
  by pat_completeness auto
termination
proof (relation "measure (\<lambda>(r, s). length s)")
  show "wf (measure (\<lambda>(r, s). length s))" by simp
next
  fix r :: rx and s :: jsstring and x2 :: "jsstring \<times> caps \<times> jsstring" and mt y c rest x xs
  assume "regexp_exec r s = Some x2" "(mt, y) = x2" "(c, rest) = y" "mt = []" "rest = x # xs"
  then have "regexp_exec r s = Some (mt, c, x # xs)" by auto
  from regexp_exec_length[OF this] show "((r, xs), (r, s)) \<in> measure (\<lambda>(r, s). length s)"
    by simp
next
  fix r :: rx and s :: jsstring and x2 :: "jsstring \<times> caps \<times> jsstring" and mt y c rest
  assume "regexp_exec r s = Some x2" "(mt, y) = x2" "(c, rest) = y" "mt \<noteq> []"
  then have "regexp_exec r s = Some (mt, c, rest)" by auto
  from regexp_exec_length[OF this] \<open>mt \<noteq> []\<close>
  show "((r, rest), (r, s)) \<in> measure (\<lambda>(r, s). length s)"
    by simp
qed

declare match_all.simps [simp del]

definition match_g :: "rx \<Rightarrow> jsstring \<Rightarrow> jsstring list option" where
  "match_g r s = (case match_all r s of [] \<Rightarrow> None | x # xs \<Rightarrow> Some (x # xs))"

text \<open>
  \<open>String.prototype.match\<close> with a pattern without the \<open>g\<close> flag: the first match
  with its captures (\<open>match[0]\<close> is the matched substring), or \<open>null\<close>.
\<close>

definition match_first :: "rx \<Rightarrow> jsstring \<Rightarrow> caps option" where
  "match_first r s =
     (case regexp_exec r s of None \<Rightarrow> None | Some (mt, c, rest) \<Rightarrow> Some ((0, mt) # c))"

text \<open>
  \<open>match[i]\<close>: the text captured by group \<open>i\<close>. A group that took no part in the match
  is \<open>undefined\<close> in JavaScript; group 1 of the patterns below lies on every path of
  its pattern (lemma \<open>match_first_group1\<close>), so the default is never read.
\<close>

definition capture :: "caps \<Rightarrow> nat \<Rightarrow> jsstring" where
  "capture c i = (case map_of c i of Some t \<Rightarrow> t | None \<Rightarrow> [])"

text \<open>
  The same loop with the \<open>index\<close> of each match beside it: the position in the input at
  which the match starts, counted from \<open>i\<close> for the first code unit of \<open>s\<close>. The matched
  substrings are those of \<open>match_all\<close> (lemma \<open>match_offsets_snd\<close>).
\<close>

function match_offsets :: "rx \<Rightarrow> nat \<Rightarrow> jsstring \<Rightarrow> (nat \<times> jsstring) list" where
  "match_offsets r i s =
     (case regexp_exec r s of
        None \<Rightarrow> []
      | Some (mt, c, rest) \<Rightarrow>
          (i + (length s - (length mt + length rest)), mt) #
            (if mt = [] then (case rest of [] \<Rightarrow> []
                              | x # xs \<Rightarrow> match_offsets r (i + (length s - length xs)) xs)
             else match_offsets r (i + (length s - length rest)) rest))"
  by pat_completeness auto
termination
proof (relation "measure (\<lambda>(r, i, s). length s)")
  show "wf (measure (\<lambda>(r, i, s). length s))" by simp
next
  fix r :: rx and i :: nat and s :: jsstring and x2 :: "jsstring \<times> caps \<times> jsstring"
    and mt y c rest x xs
  assume "regexp_exec r s = Some x2" "(mt, y) = x2" "(c, rest) = y" "mt = []" "rest = x # xs"
  then have "regexp_exec r s = Some (mt, c, x # xs)" by auto
  from regexp_exec_length[OF this]
  show "((r, i + (length s - length xs), xs), (r, i, s)) \<in> measure (\<lambda>(r, i, s). length s)"
    by simp
next
  fix r :: rx and i :: nat and s :: jsstring and x2 :: "jsstring \<times> caps \<times> jsstring"
    and mt y c rest
  assume "regexp_exec r s = Some x2" "(mt, y) = x2" "(c, rest) = y" "mt \<noteq> []"
  then have "regexp_exec r s = Some (mt, c, rest)" by auto
  from regexp_exec_length[OF this] \<open>mt \<noteq> []\<close>
  show "((r, i + (length s - length rest), rest), (r, i, s)) \<in> measure (\<lambda>(r, i, s). length s)"
    by simp
qed

declare match_offsets.simps [simp del]

section \<open>The patterns of the chat component\<close>

definition title_marker :: jsstring where
  "title_marker = lit ''Story Title: ''"

definition desc_marker :: jsstring where
  "desc_marker = lit ''Description: ''"

text \<open>\<^verbatim>\<open>/Story Title: (.*?)\nDescription: (.*?)(?:\n|$)/g\<close>\<close>

definition story_pattern :: rx where
  "story_pattern =
     Seq (chars title_marker)
       (Seq (Group 1 (LazyStar Dot))
         (Seq (Chr NL)
           (Seq (chars desc_marker)
             (Seq (Group 2 (LazyStar Dot)) (Alt (Chr NL) EndAnchor)))))"

text \<open>\<^verbatim>\<open>/Story Title: (.*?)\n/\<close>\<close>

definition title_pattern :: rx where
  "title_pattern = Seq (chars title_marker) (Seq (Group 1 (LazyStar Dot)) (Chr NL))"

text \<open>\<^verbatim>\<open>/Description: (.*?)(?:\n|$)/\<close>\<close>

definition desc_pattern :: rx where
  "desc_pattern =
     Seq (chars desc_marker) (Seq (Group 1 (LazyStar Dot)) (Alt (Chr NL) EndAnchor))"

section \<open>Requests, responses and the outside world\<close>

text \<open>The story objects of \<open>Chat.tsx\<close> and \<open>Stories.tsx\<close> (\<open>jira_key\<close> is optional).\<close>

record story =
  story_id :: jsstring
  title :: jsstring
  description :: jsstring
  published :: bool
  jira_key :: "jsstring option"

record upload_file =
  file_name :: jsstring
  file_type :: jsstring
  file_text :: jsstring

datatype body =
    ChatBody jsstring jsstring
  | StoryBody jsstring story
  | FormData upload_file jsstring
  | UpdatesBody jsstring jsstring
  | NoBody

datatype request = Post jsstring body | Put jsstring body | Get jsstring

text \<open>\<open>response.data\<close> of a fulfilled request, by the fields the components read.\<close>

datatype rdata =
    ChatData jsstring
  | ImageData jsstring jsstring
  | PublishData jsstring
  | StoriesData "story list"
  | OtherData

datatype response = Rejected | Resolved rdata

text \<open>
  What a handler cannot decide itself: the reply of the backend to a request (which may
  depend on every request sent before), the successive values of \<open>Date.now()\<close> and
  the successive values of \<open>Math.random()\<close>, the latter by their string conversion.
\<close>

record env =
  backend :: "request list \<Rightarrow> request \<Rightarrow> response"
  clock :: "nat \<Rightarrow> nat"
  random :: "nat \<Rightarrow> jsstring"

text \<open>
  What a handler changes outside the component state: the requests sent so far, the
  numbers of clock and random reads, the console and the alert boxes shown.
\<close>

record world =
  sent :: "request list"
  ticks :: nat
  draws :: nat
  console :: "jsstring list"
  alerts :: "jsstring list"

definition date_now :: "env \<Rightarrow> world \<Rightarrow> nat \<times> world" where
  "date_now e w = (clock e (ticks w), w\<lparr>ticks := Suc (ticks w)\<rparr>)"

definition math_random :: "env \<Rightarrow> world \<Rightarrow> jsstring \<times> world" where
  "math_random e w = (random e (draws w), w\<lparr>draws := Suc (draws w)\<rparr>)"

definition console_error :: "jsstring \<Rightarrow> world \<Rightarrow> world" where
  "console_error msg w = w\<lparr>console := console w @ [msg]\<rparr>"

definition alert :: "jsstring \<Rightarrow> world \<Rightarrow> world" where
  "alert msg w = w\<lparr>alerts := alerts w @ [msg]\<rparr>"

text \<open>
  A request through the axios instance of \<open>services/api.ts\<close>: the request is sent, and
  the response interceptor logs a rejection before passing it on.
\<close>

definition api_request :: "env \<Rightarrow> world \<Rightarrow> request \<Rightarrow> response \<times> world" where
  "api_request e w req =
     (let r = backend e (sent w) req;
          w1 = w\<lparr>sent := sent w @ [req]\<rparr>
      in (r, case r of Rejected \<Rightarrow> console_error (lit ''API Error:'') w1 | Resolved d \<Rightarrow> w1))"

text \<open>\<open>!selectedProject\<close> for a \<open>string | null\<close>: true of \<open>null\<close> and of the empty string.\<close>

definition falsy :: "jsstring option \<Rightarrow> bool" where
  "falsy p = (case p of None \<Rightarrow> True | Some s \<Rightarrow> s = [])"

text \<open>A value of type \<open>string | null\<close> or \<open>string | undefined\<close> inside a template literal.\<close>

definition null_str :: "jsstring option \<Rightarrow> jsstring" where
  "null_str p = (case p of None \<Rightarrow> lit ''null'' | Some s \<Rightarrow> s)"

definition undefined_str :: "jsstring option \<Rightarrow> jsstring" where
  "undefined_str p = (case p of None \<Rightarrow> lit ''undefined'' | Some s \<Rightarrow> s)"

section \<open>The chat component\<close>

datatype sender = User | Assistant

record attachment =
  att_type :: jsstring
  url :: "jsstring option"
  att_name :: jsstring
  att_description :: "jsstring option"

text \<open>
  A message of the chat. \<open>content\<close> and the fields of an attachment that are copied from
  \<open>response.data\<close> are \<open>undefined\<close> (\<open>None\<close>) when the data does not have the field.
\<close>

record chat_message =
  msg_id :: jsstring
  msg_type :: sender
  content :: "jsstring option"
  timestamp :: nat
  attachments :: "attachment list option"
  generatedStories :: "story list option"

record chat =
  messages :: "chat_message list"
  input :: jsstring
  isLoading :: bool
  isUploading :: bool

text \<open>
  The callback of \<open>storyMatch.map\<close> in \<open>handleSend\<close>: both fields are read back from the
  matched substring with a pattern of their own, and the id is built from the clock and
  the random number generator.
\<close>

definition story_of_match :: "env \<Rightarrow> world \<Rightarrow> jsstring \<Rightarrow> story \<times> world" where
  "story_of_match e w mt =
     (let titleMatch = match_first title_pattern mt;
          descMatch = match_first desc_pattern mt;
          (now, w1) = date_now e w;
          (rnd, w2) = math_random e w1
      in (\<lparr>story_id = digits now @ rnd,
           title = (case titleMatch of Some c \<Rightarrow> capture c 1 | None \<Rightarrow> lit ''Untitled Story''),
           description = (case descMatch of Some c \<Rightarrow> capture c 1 | None \<Rightarrow> lit ''No description''),
           published = False,
           jira_key = None\<rparr>, w2))"

fun map_stories :: "env \<Rightarrow> world \<Rightarrow> jsstring list \<Rightarrow> story list \<times> world" where
  "map_stories e w [] = ([], w)"
| "map_stories e w (mt # mts) =
     (let (s, w1) = story_of_match e w mt;
          (ss, w2) = map_stories e w1 mts
      in (s # ss, w2))"

text \<open>
  The extraction step of \<open>handleSend\<close>: \<open>storyMatch\<close> and, when it is not \<open>null\<close>, the
  \<open>stories\<close> array built from it.
\<close>

definition extract_stories :: "env \<Rightarrow> world \<Rightarrow> jsstring \<Rightarrow> story list option \<times> world" where
  "extract_stories e w text =
     (case match_g story_pattern text of
        None \<Rightarrow> (None, w)
      | Some storyMatch \<Rightarrow> (let (stories, w1) = map_stories e w storyMatch in (Some stories, w1)))"

text \<open>The candidates of a text: none when \<open>storyMatch\<close> is \<open>null\<close>.\<close>

definition candidates :: "env \<Rightarrow> world \<Rightarrow> jsstring \<Rightarrow> story list" where
  "candidates e w text = (case fst (extract_stories e w text) of None \<Rightarrow> [] | Some stories \<Rightarrow> stories)"

text \<open>
  The loop \<open>for (const story of stories)\<close>: one POST per story, each in a \<open>try\<close> of its
  own whose \<open>catch\<close> only logs.
\<close>

fun store_stories :: "env \<Rightarrow> jsstring \<Rightarrow> world \<Rightarrow> story list \<Rightarrow> world" where
  "store_stories e p w [] = w"
| "store_stories e p w (s # ss) =
     (let (r, w1) = api_request e w (Post (lit ''/stories'') (StoryBody p s));
          w2 = (case r of Rejected \<Rightarrow> console_error (lit ''Failed to store story:'') w1
                | Resolved d \<Rightarrow> w1)
      in store_stories e p w2 ss)"

definition failure_text :: jsstring where
  "failure_text = lit ''Failed to process your message. Please try again.''"

text \<open>
  \<open>handleSend\<close>, run to completion. A fulfilled reply whose data has no \<open>response\<close>
  string makes \<open>response.data.response.match\<close> throw, which ends in the same \<open>catch\<close>
  as a rejected request. The source computes \<open>storyMatch\<close> before it reads the clock for
  the assistant message and maps it to stories afterwards; \<open>match\<close> reads nothing but the
  text, so the model takes both steps together as \<open>extract_stories\<close>, after the clock
  reads.
\<close>

definition handleSend :: "env \<Rightarrow> jsstring option \<Rightarrow> chat \<times> world \<Rightarrow> chat \<times> world" where
  "handleSend e selectedProject sw =
     (let (st, w) = sw in
      case selectedProject of
        None \<Rightarrow> (st, w)
      | Some p \<Rightarrow>
          if trim (input st) = [] \<or> p = [] then (st, w)
          else
            let (t0, w0) = date_now e w;
                (d0, w0') = date_now e w0;
                userMessage = \<lparr>msg_id = digits t0, msg_type = User, content = Some (input st),
                  timestamp = d0, attachments = None, generatedStories = None\<rparr>;
                st1 = st\<lparr>messages := messages st @ [userMessage], input := [], isLoading := True\<rparr>;
                (resp, w1) = api_request e w0' (Post (lit ''/chat'') (ChatBody (input st) p))
            in case resp of
                 Resolved (ChatData text) \<Rightarrow>
                   let (t1, w2) = date_now e w1;
                       (d1, w3) = date_now e w2;
                       assistantMessage = \<lparr>msg_id = digits (t1 + 1), msg_type = Assistant,
                         content = Some text, timestamp = d1, attachments = None,
                         generatedStories = None\<rparr>;
                       (am, w5) =
                         (case extract_stories e w3 text of
                            (None, w4) \<Rightarrow> (assistantMessage, w4)
                          | (Some stories, w4) \<Rightarrow>
                              if length stories > 0
                              then (assistantMessage\<lparr>generatedStories := Some stories\<rparr>,
                                    store_stories e p w4 stories)
                              else (assistantMessage, w4))
                   in (st1\<lparr>messages := messages st1 @ [am], isLoading := False\<rparr>, w5)
               | _ \<Rightarrow>
                   let w2 = console_error (lit ''Failed to send message:'') w1;
                       (t1, w3) = date_now e w2;
                       (d1, w4) = date_now e w3
                   in (st1\<lparr>messages := messages st1 @
                          [\<lparr>msg_id = digits t1, msg_type = Assistant, content = Some failure_text,
                            timestamp = d1, attachments = None, generatedStories = None\<rparr>],
                        isLoading := False\<rparr>, w4))"

text \<open>The fields of \<open>response.data\<close> that the components read; \<open>None\<close> is \<open>undefined\<close>.\<close>

definition data_response :: "rdata \<Rightarrow> jsstring option" where
  "data_response d = (case d of ChatData t \<Rightarrow> Some t | _ \<Rightarrow> None)"

definition data_image_path :: "rdata \<Rightarrow> jsstring option" where
  "data_image_path d = (case d of ImageData path desc \<Rightarrow> Some path | _ \<Rightarrow> None)"

definition data_description :: "rdata \<Rightarrow> jsstring option" where
  "data_description d = (case d of ImageData path desc \<Rightarrow> Some desc | _ \<Rightarrow> None)"

definition data_jira_key :: "rdata \<Rightarrow> jsstring option" where
  "data_jira_key d = (case d of PublishData k \<Rightarrow> Some k | _ \<Rightarrow> None)"

text \<open>
  \<open>handleFileUpload\<close> of the chat, run to completion. \<open>URL.createObjectURL(file)\<close> is
  the parameter \<open>blob_url\<close>, and \<open>file.text()\<close> yields the \<open>file_text\<close> of the file
  (reading a file that the browser has handed over is taken to succeed).
\<close>

definition handleFileUpload ::
  "env \<Rightarrow> (upload_file \<Rightarrow> jsstring) \<Rightarrow> jsstring option \<Rightarrow> chat \<times> world \<Rightarrow> upload_file
     \<Rightarrow> chat \<times> world" where
  "handleFileUpload e blob_url selectedProject sw file =
     (let (st, w) = sw in
      case selectedProject of
        None \<Rightarrow> (st, alert (lit ''Please select a project first'') w)
      | Some p \<Rightarrow>
          if p = [] then (st, alert (lit ''Please select a project first'') w)
          else if prefix (lit ''image/'') (file_type file)
          then
            (let (resp, w1) = api_request e w (Post (lit ''/upload_image'') (FormData file p)) in
             case resp of
               Rejected \<Rightarrow>
                 (st\<lparr>isUploading := False\<rparr>,
                  alert (lit ''Failed to upload file. Please try again.'')
                    (console_error (lit ''Failed to upload file:'') w1))
             | Resolved d \<Rightarrow>
                 let (t0, w2) = date_now e w1;
                     (d0, w3) = date_now e w2;
                     newMessage = \<lparr>msg_id = digits t0, msg_type = User,
                       content = Some (lit ''Uploaded image:''), timestamp = d0,
                       attachments = Some [\<lparr>att_type = lit ''image'', url = data_image_path d,
                         att_name = file_name file, att_description = data_description d\<rparr>],
                       generatedStories = None\<rparr>;
                     st1 = st\<lparr>messages := messages st @ [newMessage]\<rparr>
                 in (case data_description d of
                       Some (c # cs) \<Rightarrow>
                         let (t1, w4) = date_now e w3;
                             (d1, w5) = date_now e w4
                         in (st1\<lparr>messages := messages st1 @
                                [\<lparr>msg_id = digits (t1 + 1), msg_type = Assistant,
                                  content = Some (c # cs), timestamp = d1, attachments = None,
                                  generatedStories = None\<rparr>],
                              isUploading := False\<rparr>, w5)
                     | _ \<Rightarrow> (st1\<lparr>isUploading := False\<rparr>, w3)))
          else
            (let fileContent = file_text file;
                 (t0, w1) = date_now e w;
                 (d0, w2) = date_now e w1;
                 newMessage = \<lparr>msg_id = digits t0, msg_type = User,
                   content = Some (lit ''Uploaded document: '' @ file_name file), timestamp = d0,
                   attachments = Some [\<lparr>att_type = lit ''file'', url = Some (blob_url file),
                     att_name = file_name file, att_description = None\<rparr>],
                   generatedStories = None\<rparr>;
                 st1 = st\<lparr>messages := messages st @ [newMessage]\<rparr>;
                 (resp, w3) = api_request e w2
                   (Post (lit ''/chat'')
                     (ChatBody (lit ''Please analyze this document:'' @ [NL] @ fileContent) p))
             in case resp of
                  Rejected \<Rightarrow>
                    (st1\<lparr>isUploading := False\<rparr>,
                     alert (lit ''Failed to upload file. Please try again.'')
                       (console_error (lit ''Failed to upload file:'') w3))
                | Resolved d \<Rightarrow>
                    let (t1, w4) = date_now e w3;
                        (d1, w5) = date_now e w4
                    in (st1\<lparr>messages := messages st1 @
                           [\<lparr>msg_id = digits (t1 + 1), msg_type = Assistant,
                             content = data_response d, timestamp = d1, attachments = None,
                             generatedStories = None\<rparr>],
                         isUploading := False\<rparr>, w5)))"

section \<open>The upload components\<close>

text \<open>\<open>BrdUpload.tsx\<close>: the state and \<open>onDrop\<close>. Progress events only move
  \<open>uploadProgress\<close>, which both ways out of the request reset to 0.\<close>

record brd_upload =
  uploading :: bool
  uploadProgress :: nat

definition brd_onDrop ::
  "env \<Rightarrow> jsstring option \<Rightarrow> brd_upload \<times> world \<Rightarrow> upload_file list \<Rightarrow> brd_upload \<times> world" where
  "brd_onDrop e selectedProject sw acceptedFiles =
     (let (st, w) = sw in
      case selectedProject of
        None \<Rightarrow> (st, alert (lit ''Please select a project first'') w)
      | Some p \<Rightarrow>
          if p = [] then (st, alert (lit ''Please select a project first'') w)
          else (case acceptedFiles of
                  [] \<Rightarrow> (st, w)
                | file # others \<Rightarrow>
                    let (resp, w1) = api_request e w (Post (lit ''/upload_brd'') (FormData file p))
                    in case resp of
                         Resolved d \<Rightarrow> (st\<lparr>uploading := False, uploadProgress := 0\<rparr>, w1)
                       | Rejected \<Rightarrow>
                           (st\<lparr>uploading := False, uploadProgress := 0\<rparr>,
                            alert (lit ''Failed to upload file. Please try again.'')
                              (console_error (lit ''Upload failed:'') w1))))"

text \<open>The images component: the state and \<open>onDrop\<close>, whose loop stops at the first
  rejected upload.\<close>

record images =
  images_isLoading :: bool
  uploadedImages :: "rdata list"

fun upload_images ::
  "env \<Rightarrow> jsstring \<Rightarrow> images \<times> world \<Rightarrow> upload_file list \<Rightarrow> images \<times> world" where
  "upload_images e p (st, w) [] = (st, w)"
| "upload_images e p (st, w) (file # files) =
     (let (resp, w1) = api_request e w (Post (lit ''/upload_image'') (FormData file p)) in
      case resp of
        Resolved d \<Rightarrow> upload_images e p (st\<lparr>uploadedImages := uploadedImages st @ [d]\<rparr>, w1) files
      | Rejected \<Rightarrow>
          (st, alert (lit ''Failed to upload image. Please try again.'')
                 (console_error (lit ''Failed to upload image:'') w1)))"

definition images_onDrop ::
  "env \<Rightarrow> jsstring option \<Rightarrow> images \<times> world \<Rightarrow> upload_file list \<Rightarrow> images \<times> world" where
  "images_onDrop e selectedProject sw acceptedFiles =
     (let (st, w) = sw in
      case selectedProject of
        None \<Rightarrow> (st, alert (lit ''Please select a project first'') w)
      | Some p \<Rightarrow>
          if p = [] then (st, alert (lit ''Please select a project first'') w)
          else (let (st1, w1) = upload_images e p (st\<lparr>images_isLoading := True\<rparr>, w) acceptedFiles
                in (st1\<lparr>images_isLoading := False\<rparr>, w1)))"

section \<open>The stories component\<close>

datatype severity = Success | Error

record stories_view =
  stories :: "story list"
  editingStory :: "story option"
  isPublishing :: "jsstring option"
  message :: "(severity \<times> jsstring) option"

text \<open>The \<open>disabled\<close> attributes of the two buttons of a row.\<close>

definition edit_disabled :: "story \<Rightarrow> bool" where
  "edit_disabled s = published s"

definition publish_disabled :: "stories_view \<Rightarrow> story \<Rightarrow> bool" where
  "publish_disabled st s = (published s \<or> isPublishing st = Some (story_id s))"

definition handlePublish ::
  "env \<Rightarrow> jsstring option \<Rightarrow> stories_view \<times> world \<Rightarrow> story \<Rightarrow> stories_view \<times> world" where
  "handlePublish e selectedProject sw s =
     (let (st, w) = sw in
      case selectedProject of
        None \<Rightarrow> (st\<lparr>message := Some (Error, lit ''Please select a project first'')\<rparr>, w)
      | Some p \<Rightarrow>
          if p = [] then (st\<lparr>message := Some (Error, lit ''Please select a project first'')\<rparr>, w)
          else
            let (resp, w1) = api_request e w
                  (Post (lit ''/stories/'' @ p @ lit ''/'' @ story_id s @ lit ''/publish'') NoBody)
            in case resp of
                 Resolved d \<Rightarrow>
                   (st\<lparr>stories := map (\<lambda>x. if story_id x = story_id s
                                          then x\<lparr>published := True, jira_key := data_jira_key d\<rparr>
                                          else x) (stories st),
                       message := Some (Success, lit ''Story successfully published to Jira as '' @
                                          undefined_str (data_jira_key d)),
                       isPublishing := None\<rparr>, w1)
               | Rejected \<Rightarrow>
                   (st\<lparr>message := Some (Error, lit ''Failed to publish story. Please try again.''),
                       isPublishing := None\<rparr>,
                    console_error (lit ''Failed to publish story:'') w1))"

definition handleEdit :: "stories_view \<Rightarrow> story \<Rightarrow> stories_view" where
  "handleEdit st s = st\<lparr>editingStory := Some s\<rparr>"

definition handleSaveEdit ::
  "env \<Rightarrow> jsstring option \<Rightarrow> stories_view \<times> world \<Rightarrow> story \<Rightarrow> stories_view \<times> world" where
  "handleSaveEdit e selectedProject sw editedStory =
     (let (st, w) = sw;
          (resp, w1) = api_request e w
            (Put (lit ''/stories/'' @ null_str selectedProject @ lit ''/'' @ story_id editedStory)
               (UpdatesBody (title editedStory) (description editedStory)))
      in case resp of
           Resolved d \<Rightarrow>
             (st\<lparr>stories := map (\<lambda>x. if story_id x = story_id editedStory then editedStory else x)
                               (stories st),
                 message := Some (Success, lit ''Story updated successfully''),
                 editingStory := None\<rparr>, w1)
         | Rejected \<Rightarrow>
             (st\<lparr>message := Some (Error, lit ''Failed to update story. Please try again.''),
                 editingStory := None\<rparr>,
              console_error (lit ''Failed to update story:'') w1))"

section \<open>The story store\<close>

datatype status = Draft | Published

datatype store_error = DuplicateError | InvalidStateError

record stored_story =
  stored_id :: jsstring
  project_key :: jsstring
  stored_title :: jsstring
  stored_description :: jsstring
  story_status :: status
  external_key :: "jsstring option"
  created_at :: nat
  updated_at :: nat

text \<open>
  Modelled from the spec: the \<open>update\<close> operation of the Story Lifecycle Store, whose code
  (the backend behind \<open>PUT /stories/{project_key}/{id}\<close>) is not among the sources. In the
  words of the specification, it "fails with \<open>InvalidStateError\<close> if the story is already
  \<open>published\<close>; otherwise overwrites the given fields and bumps \<open>updated_at\<close>".
\<close>

definition update ::
  "stored_story \<Rightarrow> jsstring option \<Rightarrow> jsstring option \<Rightarrow> nat \<Rightarrow> store_error + stored_story" where
  "update s new_title new_description now =
     (if story_status s = Published then Inl InvalidStateError
      else Inr (s\<lparr>stored_title := (case new_title of Some t \<Rightarrow> t | None \<Rightarrow> stored_title s),
                  stored_description :=
                    (case new_description of Some d \<Rightarrow> d | None \<Rightarrow> stored_description s),
                  updated_at := now\<rparr>))"

section \<open>The requests of the components\<close>

text \<open>Names for the requests that the handlers above send, for the statements below.\<close>

definition chat_request :: "jsstring \<Rightarrow> jsstring \<Rightarrow> request" where
  "chat_request msg p = Post (lit ''/chat'') (ChatBody msg p)"

definition store_request :: "jsstring \<Rightarrow> story \<Rightarrow> request" where
  "store_request p s = Post (lit ''/stories'') (StoryBody p s)"

definition publish_request :: "jsstring \<Rightarrow> story \<Rightarrow> request" where
  "publish_request p s =
     Post (lit ''/stories/'' @ p @ lit ''/'' @ story_id s @ lit ''/publish'') NoBody"

definition update_request :: "jsstring option \<Rightarrow> story \<Rightarrow> request" where
  "update_request selectedProject s =
     Put (lit ''/stories/'' @ null_str selectedProject @ lit ''/'' @ story_id s)
       (UpdatesBody (title s) (description s))"

text \<open>The invariant of a story row: it has a Jira key exactly when it is published.\<close>

definition key_iff_published :: "story \<Rightarrow> bool" where
  "key_iff_published s = (published s \<longleftrightarrow> jira_key s \<noteq> None)"

section \<open>The stories page between a click and the answer\<close>

text \<open>
  \<open>handlePublish\<close> in two halves, split at its \<open>await\<close>: what runs at the click, and what
  runs when the answer arrives.
\<close>

definition publish_begin :: "jsstring \<Rightarrow> stories_view \<Rightarrow> story \<Rightarrow> stories_view \<times> request" where
  "publish_begin p st s =
     (st\<lparr>isPublishing := Some (story_id s), message := None\<rparr>, publish_request p s)"

definition publish_settle :: "stories_view \<Rightarrow> story \<Rightarrow> response \<Rightarrow> stories_view" where
  "publish_settle st s resp =
     (case resp of
        Resolved d \<Rightarrow>
          st\<lparr>stories := map (\<lambda>x. if story_id x = story_id s
                                 then x\<lparr>published := True, jira_key := data_jira_key d\<rparr>
                                 else x) (stories st),
              message := Some (Success, lit ''Story successfully published to Jira as '' @
                                 undefined_str (data_jira_key d)),
              isPublishing := None\<rparr>
      | Rejected \<Rightarrow>
          st\<lparr>message := Some (Error, lit ''Failed to publish story. Please try again.''),
              isPublishing := None\<rparr>)"

text \<open>
  The page with its publish requests in flight. The table is rendered only while a project
  is selected; a click on the Publish button of a row is possible when the button is not
  disabled; an answer settles a request in flight. State updates of one event are applied
  before the next event is handled.
\<close>

record page =
  view :: stories_view
  inflight :: "story list"
  requested :: "request list"

definition click_publish :: "jsstring \<Rightarrow> page \<Rightarrow> story \<Rightarrow> page option" where
  "click_publish p y s =
     (if p \<noteq> [] \<and> s \<in> set (stories (view y)) \<and> \<not> publish_disabled (view y) s
      then Some (y\<lparr>view := fst (publish_begin p (view y) s),
                   inflight := inflight y @ [s],
                   requested := requested y @ [snd (publish_begin p (view y) s)]\<rparr>)
      else None)"

definition settle :: "page \<Rightarrow> story \<Rightarrow> response \<Rightarrow> page option" where
  "settle y s resp =
     (if s \<in> set (inflight y)
      then Some (y\<lparr>view := publish_settle (view y) s resp, inflight := remove1 s (inflight y)\<rparr>)
      else None)"

section \<open>What the three patterns match\<close>

text \<open>The continuation of a top-level match: it accepts what is left.\<close>

abbreviation (input) ret :: "jsstring \<Rightarrow> caps \<Rightarrow> mres" where
  "ret \<equiv> (\<lambda>s' c'. Some (s', c'))"

definition line_free :: "jsstring \<Rightarrow> bool" where
  "line_free s = (\<forall>x \<in> set s. \<not> is_line_terminator x)"

lemma matcher_chars:
  "matcher (chars as) s c k = (if prefix as s then k (drop (length as) s) c else None)"
  by (induction as arbitrary: s) (auto split: list.splits)

lemma matcher_lazy_dot:
  assumes "\<And>v c'. v \<noteq> [] \<Longrightarrow> \<not> is_line_terminator (hd v) \<Longrightarrow> k v c' = None"
  shows "matcher (LazyStar Dot) s c k = k (dropWhile (\<lambda>x. \<not> is_line_terminator x) s) c"
proof (induction s)
  case Nil
  then show ?case by (auto split: option.splits)
next
  case (Cons x xs)
  show ?case
  proof (cases "is_line_terminator x")
    case True
    then show ?thesis by (auto split: option.splits)
  next
    case False
    then have "k (x # xs) c = None" using assms by simp
    then show ?thesis using False Cons by simp
  qed
qed

lemma take_length_dropWhile:
  "take (length s - length (dropWhile P s)) s = takeWhile P s"
proof -
  have "length s = length (takeWhile P s) + length (dropWhile P s)"
    by (metis length_append takeWhile_dropWhile_id)
  then have "length s - length (dropWhile P s) = length (takeWhile P s)" by simp
  then show ?thesis by (simp add: takeWhile_eq_take[symmetric])
qed

lemma matcher_group_lazy_dot:
  assumes "\<And>v c'. v \<noteq> [] \<Longrightarrow> \<not> is_line_terminator (hd v) \<Longrightarrow> k v c' = None"
  shows "matcher (Group i (LazyStar Dot)) s c k =
         k (dropWhile (\<lambda>x. \<not> is_line_terminator x) s)
           ((i, takeWhile (\<lambda>x. \<not> is_line_terminator x) s) # c)"
proof -
  let ?k = "\<lambda>s' c'. k s' ((i, take (length s - length s') s) # c')"
  have "matcher (LazyStar Dot) s c ?k = ?k (dropWhile (\<lambda>x. \<not> is_line_terminator x) s) c"
    by (rule matcher_lazy_dot) (simp add: assms)
  then show ?thesis by (simp add: take_length_dropWhile)
qed

lemma NL_line_terminator: "is_line_terminator NL"
  by (simp add: NL_def is_line_terminator_def)

lemma matcher_line_end:
  "matcher (Alt (Chr NL) EndAnchor) s c ret =
     (case s of [] \<Rightarrow> Some ([], c) | x # xs \<Rightarrow> if x = NL then Some (xs, c) else None)"
  by (auto split: list.splits)

definition tail_match :: "jsstring \<Rightarrow> (jsstring \<times> jsstring) option" where
  "tail_match s =
     (let d = takeWhile (\<lambda>x. \<not> is_line_terminator x) s;
          q = dropWhile (\<lambda>x. \<not> is_line_terminator x) s
      in case q of [] \<Rightarrow> Some (d, []) | x # xs \<Rightarrow> if x = NL then Some (d, xs) else None)"

lemma matcher_seq_chars:
  "matcher (Seq (chars as) r) s c k =
     (if prefix as s then matcher r (drop (length as) s) c k else None)"
  by (simp add: matcher_chars)

lemma matcher_group_line_end:
  "matcher (Seq (Group i (LazyStar Dot)) (Alt (Chr NL) EndAnchor)) s c k =
   matcher (Alt (Chr NL) EndAnchor) (dropWhile (\<lambda>x. \<not> is_line_terminator x) s)
     ((i, takeWhile (\<lambda>x. \<not> is_line_terminator x) s) # c) k"
proof -
  have "\<And>v c'. v \<noteq> [] \<Longrightarrow> \<not> is_line_terminator (hd v) \<Longrightarrow>
      matcher (Alt (Chr NL) EndAnchor) v c' k = None"
    using NL_line_terminator by (auto split: list.splits)
  from matcher_group_lazy_dot[of "\<lambda>v c'. matcher (Alt (Chr NL) EndAnchor) v c' k", OF this]
  show ?thesis by (simp del: matcher.simps add: matcher.simps(4))
qed

lemma matcher_group_newline:
  "matcher (Seq (Group i (LazyStar Dot)) (Seq (Chr NL) r)) s c k =
   matcher (Seq (Chr NL) r) (dropWhile (\<lambda>x. \<not> is_line_terminator x) s)
     ((i, takeWhile (\<lambda>x. \<not> is_line_terminator x) s) # c) k"
proof -
  have "\<And>v c'. v \<noteq> [] \<Longrightarrow> \<not> is_line_terminator (hd v) \<Longrightarrow>
      matcher (Seq (Chr NL) r) v c' k = None"
    using NL_line_terminator by (auto split: list.splits)
  from matcher_group_lazy_dot[of "\<lambda>v c'. matcher (Seq (Chr NL) r) v c' k", OF this]
  show ?thesis by (simp del: matcher.simps add: matcher.simps(4))
qed

lemma matcher_group_newline_end:
  "matcher (Seq (Group i (LazyStar Dot)) (Chr NL)) s c k =
   matcher (Chr NL) (dropWhile (\<lambda>x. \<not> is_line_terminator x) s)
     ((i, takeWhile (\<lambda>x. \<not> is_line_terminator x) s) # c) k"
proof -
  have "\<And>v c'. v \<noteq> [] \<Longrightarrow> \<not> is_line_terminator (hd v) \<Longrightarrow>
      matcher (Chr NL) v c' k = None"
    using NL_line_terminator by (auto split: list.splits)
  from matcher_group_lazy_dot[of "\<lambda>v c'. matcher (Chr NL) v c' k", OF this]
  show ?thesis by (simp del: matcher.simps add: matcher.simps(4))
qed

lemma matcher_seq_chr:
  "matcher (Seq (Chr a) r) s c k =
     (case s of [] \<Rightarrow> None | x # xs \<Rightarrow> if x = a then matcher r xs c k else None)"
  by (simp split: list.splits)

lemma matcher_line_end_tail:
  "matcher (Alt (Chr NL) EndAnchor) (dropWhile (\<lambda>x. \<not> is_line_terminator x) s)
     ((i, takeWhile (\<lambda>x. \<not> is_line_terminator x) s) # c) ret =
   (case tail_match s of None \<Rightarrow> None | Some (d, rest) \<Rightarrow> Some (rest, (i, d) # c))"
proof (cases "dropWhile (\<lambda>x. \<not> is_line_terminator x) s")
  case Nil
  show ?thesis by (simp add: Nil tail_match_def)
next
  case (Cons x xs)
  show ?thesis by (simp add: Cons tail_match_def)
qed

lemma matcher_desc_pattern:
  "matcher desc_pattern s [] ret =
     (if prefix desc_marker s
      then (case tail_match (drop (length desc_marker) s) of
              None \<Rightarrow> None | Some (d, rest) \<Rightarrow> Some (rest, [(1, d)]))
      else None)"
  unfolding desc_pattern_def
  by (simp del: matcher.simps One_nat_def add: matcher_seq_chars matcher_group_line_end matcher_line_end_tail)

lemma matcher_title_pattern:
  "matcher title_pattern s [] ret =
     (if prefix title_marker s
      then (case dropWhile (\<lambda>x. \<not> is_line_terminator x) (drop (length title_marker) s) of
              [] \<Rightarrow> None
            | x # xs \<Rightarrow> if x = NL
                then Some (xs, [(1, takeWhile (\<lambda>x. \<not> is_line_terminator x)
                                     (drop (length title_marker) s))])
                else None)
      else None)"
  unfolding title_pattern_def
  by (simp del: matcher.simps One_nat_def add: matcher_seq_chars matcher_group_newline_end matcher.simps(2))

lemma matcher_story_pattern:
  "matcher story_pattern s [] ret =
     (if prefix title_marker s
      then (case dropWhile (\<lambda>x. \<not> is_line_terminator x) (drop (length title_marker) s) of
              [] \<Rightarrow> None
            | x # xs \<Rightarrow>
                if x = NL
                then if prefix desc_marker xs
                  then (case tail_match (drop (length desc_marker) xs) of
                        None \<Rightarrow> None
                      | Some (d, rest) \<Rightarrow>
                          Some (rest, [(2, d), (1, takeWhile (\<lambda>x. \<not> is_line_terminator x)
                             (drop (length title_marker) s))]))
                  else None
                else None)
      else None)"
proof (cases "dropWhile (\<lambda>x. \<not> is_line_terminator x) (drop (length title_marker) s)")
  case Nil
  show ?thesis
    unfolding story_pattern_def
    by (simp del: matcher.simps One_nat_def add: Nil matcher_seq_chars matcher_group_newline
        matcher_seq_chr)
next
  case (Cons x xs)
  show ?thesis
    unfolding story_pattern_def
    by (simp del: matcher.simps One_nat_def add: Cons matcher_seq_chars matcher_group_newline
        matcher_group_line_end matcher_line_end_tail matcher_seq_chr)
qed


lemma line_free_takeWhile: "line_free (takeWhile (\<lambda>x. \<not> is_line_terminator x) s)"
  by (auto simp: line_free_def dest: set_takeWhileD)

lemma takeWhile_line: "line_free d \<Longrightarrow> takeWhile (\<lambda>x. \<not> is_line_terminator x) (d @ NL # r) = d"
  by (simp add: line_free_def takeWhile_append2 NL_line_terminator)

lemma dropWhile_line: "line_free d \<Longrightarrow> dropWhile (\<lambda>x. \<not> is_line_terminator x) (d @ NL # r) = NL # r"
  by (simp add: line_free_def dropWhile_append2 NL_line_terminator)

lemma takeWhile_line_free: "line_free d \<Longrightarrow> takeWhile (\<lambda>x. \<not> is_line_terminator x) d = d"
  by (simp add: line_free_def)

lemma dropWhile_line_free: "line_free d \<Longrightarrow> dropWhile (\<lambda>x. \<not> is_line_terminator x) d = []"
  by (simp add: line_free_def)

lemma tail_match_Some:
  "tail_match s = Some (d, rest) \<longleftrightarrow>
     line_free d \<and> ((s = d \<and> rest = []) \<or> s = d @ NL # rest)"
proof
  assume a: "tail_match s = Some (d, rest)"
  let ?P = "\<lambda>x. \<not> is_line_terminator x"
  have s: "s = takeWhile ?P s @ dropWhile ?P s" by simp
  show "line_free d \<and> ((s = d \<and> rest = []) \<or> s = d @ NL # rest)"
  proof (cases "dropWhile ?P s")
    case Nil
    with a have "d = takeWhile ?P s" "rest = []" by (simp_all add: tail_match_def)
    with s Nil show ?thesis using line_free_takeWhile by (metis append_Nil2)
  next
    case (Cons x xs)
    with a have "x = NL" "d = takeWhile ?P s" "rest = xs"
      by (simp_all add: tail_match_def split: if_splits)
    with s Cons show ?thesis using line_free_takeWhile by metis
  qed
next
  assume "line_free d \<and> ((s = d \<and> rest = []) \<or> s = d @ NL # rest)"
  then show "tail_match s = Some (d, rest)"
    by (auto simp: tail_match_def takeWhile_line dropWhile_line takeWhile_line_free
        dropWhile_line_free)
qed

lemma tail_match_nl: "line_free d \<Longrightarrow> tail_match (d @ NL # rest) = Some (d, rest)"
  by (simp add: tail_match_Some)

lemma tail_match_end: "line_free d \<Longrightarrow> tail_match d = Some (d, [])"
  by (simp add: tail_match_Some)

lemma desc_match_iff:
  "matcher desc_pattern s [] ret = Some (rest, c) \<longleftrightarrow>
     (\<exists>d. line_free d \<and> c = [(1, d)] \<and>
       (s = desc_marker @ d @ NL # rest \<or> (s = desc_marker @ d \<and> rest = [])))"
proof
  assume a: "matcher desc_pattern s [] ret = Some (rest, c)"
  then obtain s1 where s: "s = desc_marker @ s1"
    by (auto simp: matcher_desc_pattern prefix_def split: if_splits)
  with a obtain d where "tail_match s1 = Some (d, rest)" "c = [(1, d)]"
    by (auto simp: matcher_desc_pattern split: option.splits)
  with s show "\<exists>d. line_free d \<and> c = [(1, d)] \<and>
       (s = desc_marker @ d @ NL # rest \<or> (s = desc_marker @ d \<and> rest = []))"
    by (auto simp: tail_match_Some)
next
  assume "\<exists>d. line_free d \<and> c = [(1, d)] \<and>
       (s = desc_marker @ d @ NL # rest \<or> (s = desc_marker @ d \<and> rest = []))"
  then show "matcher desc_pattern s [] ret = Some (rest, c)"
    by (auto simp del: One_nat_def simp: matcher_desc_pattern tail_match_nl tail_match_end)
qed

lemma title_match_iff:
  "matcher title_pattern s [] ret = Some (rest, c) \<longleftrightarrow>
     (\<exists>t. line_free t \<and> c = [(1, t)] \<and> s = title_marker @ t @ NL # rest)"
proof
  let ?P = "\<lambda>x. \<not> is_line_terminator x"
  assume a: "matcher title_pattern s [] ret = Some (rest, c)"
  then obtain s1 where s: "s = title_marker @ s1"
    by (auto simp: matcher_title_pattern prefix_def split: if_splits)
  with a have "dropWhile ?P s1 = NL # rest" "c = [(1, takeWhile ?P s1)]"
    by (auto simp: matcher_title_pattern split: list.splits if_splits)
  moreover have "s1 = takeWhile ?P s1 @ dropWhile ?P s1" by simp
  ultimately show "\<exists>t. line_free t \<and> c = [(1, t)] \<and> s = title_marker @ t @ NL # rest"
    using s line_free_takeWhile by metis
next
  assume "\<exists>t. line_free t \<and> c = [(1, t)] \<and> s = title_marker @ t @ NL # rest"
  then show "matcher title_pattern s [] ret = Some (rest, c)"
    by (auto simp del: One_nat_def simp: matcher_title_pattern takeWhile_line dropWhile_line)
qed

lemma story_match_iff:
  "matcher story_pattern s [] ret = Some (rest, c) \<longleftrightarrow>
     (\<exists>t d. line_free t \<and> line_free d \<and> c = [(2, d), (1, t)] \<and>
       (s = title_marker @ t @ NL # desc_marker @ d @ NL # rest \<or>
        (s = title_marker @ t @ NL # desc_marker @ d \<and> rest = [])))"
proof
  let ?P = "\<lambda>x. \<not> is_line_terminator x"
  assume a: "matcher story_pattern s [] ret = Some (rest, c)"
  then obtain s1 where s: "s = title_marker @ s1"
    by (auto simp: matcher_story_pattern prefix_def split: if_splits)
  with a obtain xs where dw: "dropWhile ?P s1 = NL # xs"
    by (auto simp: matcher_story_pattern split: list.splits if_splits)
  with a s obtain s2 where xs: "xs = desc_marker @ s2"
    by (auto simp: matcher_story_pattern prefix_def split: if_splits)
  with a s dw obtain d where tm: "tail_match s2 = Some (d, rest)" and c: "c = [(2, d), (1, takeWhile ?P s1)]"
    by (auto simp: matcher_story_pattern split: option.splits)
  have "s1 = takeWhile ?P s1 @ dropWhile ?P s1" by simp
  with dw xs have s1: "s1 = takeWhile ?P s1 @ NL # desc_marker @ s2" by simp
  from tm have "line_free d" "(s2 = d \<and> rest = []) \<or> s2 = d @ NL # rest"
    by (simp_all add: tail_match_Some)
  with s s1 c line_free_takeWhile[of s1]
  show "\<exists>t d. line_free t \<and> line_free d \<and> c = [(2, d), (1, t)] \<and>
       (s = title_marker @ t @ NL # desc_marker @ d @ NL # rest \<or>
        (s = title_marker @ t @ NL # desc_marker @ d \<and> rest = []))"
    by metis
next
  assume "\<exists>t d. line_free t \<and> line_free d \<and> c = [(2, d), (1, t)] \<and>
       (s = title_marker @ t @ NL # desc_marker @ d @ NL # rest \<or>
        (s = title_marker @ t @ NL # desc_marker @ d \<and> rest = []))"
  then show "matcher story_pattern s [] ret = Some (rest, c)"
    by (auto simp del: One_nat_def
        simp: matcher_story_pattern takeWhile_line dropWhile_line tail_match_nl tail_match_end)
qed

section \<open>Searching and collecting matches\<close>

lemma regexp_exec_Some:
  "regexp_exec r s = Some (mt, c, rest) \<Longrightarrow>
     \<exists>pre. s = pre @ mt @ rest \<and> matcher r (mt @ rest) [] ret = Some (rest, c)"
proof (induction r s rule: regexp_exec.induct)
  case (1 r s)
  show ?case
  proof (cases "matcher r s [] ret")
    case None
    with 1(2) obtain x xs where s: "s = x # xs" and e: "regexp_exec r xs = Some (mt, c, rest)"
      by (subst (asm) regexp_exec.simps) (auto split: list.splits)
    from 1(1)[OF None s e] obtain pre where "xs = pre @ mt @ rest"
      "matcher r (mt @ rest) [] ret = Some (rest, c)" by blast
    with s have "s = (x # pre) @ mt @ rest" by simp
    with \<open>matcher r (mt @ rest) [] ret = Some (rest, c)\<close> show ?thesis by blast
  next
    case (Some a)
    obtain s' c' where a: "a = (s', c')" by (cases a)
    from matcher_suffix[OF Some] a have suf: "suffix s' s" by auto
    from 1(2) Some a have mt: "mt = take (length s - length s') s" and r: "rest = s'" and c: "c = c'"
      by (subst (asm) regexp_exec.simps, simp)+
    from suf obtain u where "s = u @ s'" by (auto simp: suffix_def)
    with mt have "s = mt @ s'" by simp
    with Some a r c have "s = [] @ mt @ rest \<and> matcher r (mt @ rest) [] ret = Some (rest, c)"
      by simp
    then show ?thesis by blast
  qed
qed

lemma regexp_exec_None:
  "regexp_exec r s = None \<longleftrightarrow> (\<forall>v. suffix v s \<longrightarrow> matcher r v [] ret = None)"
proof (induction s)
  case Nil
  show ?case by (subst regexp_exec.simps) (auto split: option.splits)
next
  case (Cons x xs)
  show ?case
    by (subst regexp_exec.simps) (auto simp: Cons suffix_Cons split: option.splits)
qed

lemma regexp_exec_hit:
  "matcher r s [] ret = Some (rest, c) \<Longrightarrow>
     regexp_exec r s = Some (take (length s - length rest) s, c, rest)"
  by (subst regexp_exec.simps) simp

lemma regexp_exec_skip:
  "matcher r (x # s) [] ret = None \<Longrightarrow> regexp_exec r (x # s) = regexp_exec r s"
  by (subst regexp_exec.simps) simp

lemma match_all_mem:
  "x \<in> set (match_all r s) \<Longrightarrow>
     \<exists>pre rest c. s = pre @ x @ rest \<and> matcher r (x @ rest) [] ret = Some (rest, c)"
proof (induction r s rule: match_all.induct)
  case (1 r s)
  show ?case
  proof (cases "regexp_exec r s")
    case None
    with 1(3) show ?thesis by (subst (asm) match_all.simps) simp
  next
    case (Some a)
    obtain mt c rest where a: "a = (mt, c, rest)" by (cases a)
    from regexp_exec_Some[OF Some[unfolded a]] obtain pre where
      s: "s = pre @ mt @ rest" and mm: "matcher r (mt @ rest) [] ret = Some (rest, c)" by blast
    show ?thesis
    proof (cases "x = mt")
      case True
      with s mm show ?thesis by blast
    next
      case False
      show ?thesis
      proof (cases "mt = []")
        case True
        with 1(3) Some a False obtain y ys where rest: "rest = y # ys" and x: "x \<in> set (match_all r ys)"
          by (subst (asm) match_all.simps) (auto split: list.splits)
        from 1(1)[OF Some a[symmetric] refl True rest x] obtain pre' rest' c' where
          "ys = pre' @ x @ rest'" "matcher r (x @ rest') [] ret = Some (rest', c')" by blast
        with s rest have "s = (pre @ mt @ y # pre') @ x @ rest'" by simp
        with \<open>matcher r (x @ rest') [] ret = Some (rest', c')\<close> show ?thesis by blast
      next
        case F: False
        with 1(3) Some a False have x: "x \<in> set (match_all r rest)"
          by (subst (asm) match_all.simps) auto
        from 1(2)[OF Some a[symmetric] refl F x] obtain pre' rest' c' where
          "rest = pre' @ x @ rest'" "matcher r (x @ rest') [] ret = Some (rest', c')" by blast
        with s have "s = (pre @ mt @ pre') @ x @ rest'" by simp
        with \<open>matcher r (x @ rest') [] ret = Some (rest', c')\<close> show ?thesis by blast
      qed
    qed
  qed
qed

lemma match_all_None: "regexp_exec r s = None \<Longrightarrow> match_all r s = []"
  by (subst match_all.simps) simp

text \<open>The loop depends on its input only through the next match found in it.\<close>

lemma match_all_cong_exec:
  "regexp_exec r s = regexp_exec r s' \<Longrightarrow> match_all r s = match_all r s'"
  by (subst match_all.simps, subst (2) match_all.simps) simp

text \<open>
  The loop with indices finds the matches of \<open>match_all\<close>, and each of them is a match
  of the pattern at its index.
\<close>

lemma match_offsets_snd: "map snd (match_offsets r i s) = match_all r s"
proof (induction r i s rule: match_offsets.induct)
  case (1 r i s)
  show ?case
  proof (cases "regexp_exec r s")
    case None
    then show ?thesis by (subst match_offsets.simps, subst match_all.simps) simp
  next
    case (Some a)
    obtain mt c rest where a: "a = (mt, c, rest)" by (cases a)
    show ?thesis
    proof (cases "mt = []")
      case True
      show ?thesis
      proof (cases rest)
        case Nil
        with Some a True show ?thesis by (subst match_offsets.simps, subst match_all.simps) simp
      next
        case (Cons x xs)
        from 1(1)[OF Some a[symmetric] refl True Cons] Some a True Cons show ?thesis
          by (subst match_offsets.simps, subst match_all.simps) simp
      qed
    next
      case False
      from 1(2)[OF Some a[symmetric] refl False] Some a False show ?thesis
        by (subst match_offsets.simps, subst match_all.simps) simp
    qed
  qed
qed

lemma match_offsets_mem:
  "(n, m) \<in> set (match_offsets r i s) \<Longrightarrow>
     \<exists>pre rest c. s = pre @ m @ rest \<and> n = i + length pre
        \<and> matcher r (m @ rest) [] (\<lambda>s' c'. Some (s', c')) = Some (rest, c)"
proof (induction r i s rule: match_offsets.induct)
  case (1 r i s)
  show ?case
  proof (cases "regexp_exec r s")
    case None
    with 1(3) show ?thesis by (subst (asm) match_offsets.simps) simp
  next
    case (Some a)
    obtain mt c rest where a: "a = (mt, c, rest)" by (cases a)
    from regexp_exec_Some[OF Some[unfolded a]] obtain pre where
      s: "s = pre @ mt @ rest" and mm: "matcher r (mt @ rest) [] ret = Some (rest, c)" by blast
    from s have off: "i + (length s - (length mt + length rest)) = i + length pre" by simp
    show ?thesis
    proof (cases "(n, m) = (i + length pre, mt)")
      case True
      with s mm show ?thesis by blast
    next
      case False
      show ?thesis
      proof (cases "mt = []")
        case True
        with 1(3) Some a False off obtain y ys where rest: "rest = y # ys"
          and x: "(n, m) \<in> set (match_offsets r (i + (length s - length ys)) ys)"
          by (subst (asm) match_offsets.simps) (auto split: list.splits)
        from 1(1)[OF Some a[symmetric] refl True rest x] obtain pre' rest' c' where
          p: "ys = pre' @ m @ rest'" "n = i + (length s - length ys) + length pre'"
          "matcher r (m @ rest') [] ret = Some (rest', c')" by blast
        from s rest p(1) have "s = (pre @ mt @ y # pre') @ m @ rest'" by simp
        moreover from s rest p(1,2) have "n = i + length (pre @ mt @ y # pre')" by simp
        ultimately show ?thesis using p(3) by blast
      next
        case F: False
        with 1(3) Some a False off
        have x: "(n, m) \<in> set (match_offsets r (i + (length s - length rest)) rest)"
          by (subst (asm) match_offsets.simps) auto
        from 1(2)[OF Some a[symmetric] refl F x] obtain pre' rest' c' where
          p: "rest = pre' @ m @ rest'" "n = i + (length s - length rest) + length pre'"
          "matcher r (m @ rest') [] ret = Some (rest', c')" by blast
        from s p(1) have "s = (pre @ mt @ pre') @ m @ rest'" by simp
        moreover from s p(1,2) have "n = i + length (pre @ mt @ pre')" by simp
        ultimately show ?thesis using p(3) by blast
      qed
    qed
  qed
qed


text \<open>Group 1 takes part in every match of the title and of the description pattern.\<close>

lemma match_first_group1:
  "match_first title_pattern s = Some c \<Longrightarrow> map_of c 1 \<noteq> None"
  "match_first desc_pattern s = Some c \<Longrightarrow> map_of c 1 \<noteq> None"
proof -
  assume "match_first title_pattern s = Some c"
  then obtain mt c' rest where e: "regexp_exec title_pattern s = Some (mt, c', rest)"
    and c: "c = (0, mt) # c'"
    by (auto simp: match_first_def split: option.splits)
  from regexp_exec_Some[OF e] title_match_iff[of "mt @ rest" rest c'] c
  show "map_of c 1 \<noteq> None" by auto
next
  assume "match_first desc_pattern s = Some c"
  then obtain mt c' rest where e: "regexp_exec desc_pattern s = Some (mt, c', rest)"
    and c: "c = (0, mt) # c'"
    by (auto simp: match_first_def split: option.splits)
  from regexp_exec_Some[OF e] desc_match_iff[of "mt @ rest" rest c'] c
  show "map_of c 1 \<noteq> None" by auto
qed

section \<open>The fields of a candidate\<close>

text \<open>What \<open>story_of_match\<close> reads from a matched substring, as functions of the
  substring alone.\<close>

definition title_of :: "jsstring \<Rightarrow> jsstring" where
  "title_of mt =
     (case match_first title_pattern mt of Some c \<Rightarrow> capture c 1 | None \<Rightarrow> lit ''Untitled Story'')"

definition description_of :: "jsstring \<Rightarrow> jsstring" where
  "description_of mt =
     (case match_first desc_pattern mt of Some c \<Rightarrow> capture c 1 | None \<Rightarrow> lit ''No description'')"

lemma story_of_match_fields:
  "title (fst (story_of_match e w mt)) = title_of mt"
  "description (fst (story_of_match e w mt)) = description_of mt"
  "published (fst (story_of_match e w mt)) = False"
  "jira_key (fst (story_of_match e w mt)) = None"
  by (simp_all add: story_of_match_def title_of_def description_of_def Let_def split: prod.splits)

lemma map_stories_mem:
  "c \<in> set (fst (map_stories e w ms)) \<Longrightarrow>
     \<exists>mt \<in> set ms. title c = title_of mt \<and> description c = description_of mt
        \<and> published c = False \<and> jira_key c = None"
proof (induction ms arbitrary: w)
  case Nil
  then show ?case by simp
next
  case (Cons mt ms)
  obtain s w1 where s: "story_of_match e w mt = (s, w1)" by (cases "story_of_match e w mt")
  obtain ss w2 where ss: "map_stories e w1 ms = (ss, w2)" by (cases "map_stories e w1 ms")
  from Cons.prems s ss have "c = s \<or> c \<in> set (fst (map_stories e w1 ms))" by auto
  then show ?case
  proof
    assume "c = s"
    with s story_of_match_fields[of e w mt] show ?thesis by simp
  next
    assume "c \<in> set (fst (map_stories e w1 ms))"
    from Cons.IH[OF this] show ?thesis by auto
  qed
qed

lemma map_stories_fields:
  "map (\<lambda>s. (title s, description s, published s, jira_key s)) (fst (map_stories e w ms)) =
   map (\<lambda>mt. (title_of mt, description_of mt, False, None)) ms"
proof (induction ms arbitrary: w)
  case Nil
  show ?case by simp
next
  case (Cons mt ms)
  obtain s w1 where s: "story_of_match e w mt = (s, w1)" by (cases "story_of_match e w mt")
  obtain ss w2 where ss: "map_stories e w1 ms = (ss, w2)" by (cases "map_stories e w1 ms")
  from Cons.IH[of w1] story_of_match_fields[of e w mt] show ?case
    by (simp add: s ss)
qed

lemma candidates_eq:
  "candidates e w text = fst (map_stories e w (match_all story_pattern text))"
  by (simp add: candidates_def extract_stories_def match_g_def split: list.splits prod.splits)

lemma line_free_desc_marker: "line_free desc_marker"
  by (simp add: line_free_def desc_marker_def lit_def is_line_terminator_def)

lemma line_free_title_marker: "line_free title_marker"
  by (simp add: line_free_def title_marker_def lit_def is_line_terminator_def)

lemma desc_marker_last: "desc_marker \<noteq> [] \<and> last desc_marker \<noteq> NL"
  by (simp add: desc_marker_def lit_def NL_def)

lemma line_free_last: "line_free d \<Longrightarrow> d \<noteq> [] \<Longrightarrow> last d \<noteq> NL"
  unfolding line_free_def by (metis NL_line_terminator last_in_set)

lemma no_newline_end: "line_free d \<Longrightarrow> last (pre @ desc_marker @ d) \<noteq> NL"
  using desc_marker_last line_free_last by (cases "d = []") auto

lemma description_of_match:
  assumes "matcher story_pattern (mt @ rest) [] ret = Some (rest, c)"
  shows "\<exists>pre d post. mt = pre @ desc_marker @ d @ post \<and> description_of mt = d \<and> line_free d
           \<and> ((post = [] \<and> rest = []) \<or> (\<exists>r. post = NL # r))"
proof -
  from assms obtain t d0 where lf: "line_free t" "line_free d0"
    and shape: "mt @ rest = title_marker @ t @ NL # desc_marker @ d0 @ NL # rest \<or>
        (mt @ rest = title_marker @ t @ NL # desc_marker @ d0 \<and> rest = [])"
    by (auto simp: story_match_iff)
  from shape have mt: "mt = (title_marker @ t @ [NL]) @ desc_marker @ d0 @ [NL] \<or>
      (mt = (title_marker @ t @ [NL]) @ desc_marker @ d0 \<and> rest = [])"
    by auto
  have "\<exists>v rest' c'. suffix v mt \<and> matcher desc_pattern v [] ret = Some (rest', c')"
  proof -
    from mt show ?thesis
    proof
      assume a: "mt = (title_marker @ t @ [NL]) @ desc_marker @ d0 @ [NL]"
      have "matcher desc_pattern (desc_marker @ d0 @ NL # []) [] ret = Some ([], [(1, d0)])"
        using lf by (subst desc_match_iff) blast
      moreover have "suffix (desc_marker @ d0 @ NL # []) mt" using a by (simp add: suffix_def)
      ultimately show ?thesis by blast
    next
      assume a: "mt = (title_marker @ t @ [NL]) @ desc_marker @ d0 \<and> rest = []"
      have "matcher desc_pattern (desc_marker @ d0) [] ret = Some ([], [(1, d0)])"
        using lf by (subst desc_match_iff) blast
      moreover have "suffix (desc_marker @ d0) mt" using a by (simp add: suffix_def)
      ultimately show ?thesis by blast
    qed
  qed
  then have "regexp_exec desc_pattern mt \<noteq> None"
    by (auto simp: regexp_exec_None)
  then obtain m' c' rest' where ex: "regexp_exec desc_pattern mt = Some (m', c', rest')"
    by (cases "regexp_exec desc_pattern mt") auto
  from regexp_exec_Some[OF ex] obtain pre where pre: "mt = pre @ m' @ rest'"
    and mm: "matcher desc_pattern (m' @ rest') [] ret = Some (rest', c')" by blast
  from mm obtain d where d: "line_free d" "c' = [(1, d)]"
    and dshape: "m' @ rest' = desc_marker @ d @ NL # rest' \<or> (m' @ rest' = desc_marker @ d \<and> rest' = [])"
    by (auto simp: desc_match_iff)
  have dof: "description_of mt = d"
    using ex d(2) by (simp add: description_of_def match_first_def capture_def)
  from dshape show ?thesis
  proof
    assume "m' @ rest' = desc_marker @ d @ NL # rest'"
    with pre have "mt = pre @ desc_marker @ d @ NL # rest'" by simp
    with dof d(1) show ?thesis by blast
  next
    assume a: "m' @ rest' = desc_marker @ d \<and> rest' = []"
    then have "m' = desc_marker @ d" "rest' = []" by auto
    with pre have m: "mt = pre @ desc_marker @ d @ []" by simp
    from mt have "rest = []"
    proof
      assume "mt = (title_marker @ t @ [NL]) @ desc_marker @ d0 @ [NL]"
      then have "last mt = NL" by simp
      with m no_newline_end[OF d(1), of pre] show ?thesis by simp
    qed simp
    with m dof d(1) show ?thesis by blast
  qed
qed

lemma takeWhile_newline:
  assumes "line_free d" and "post = [] \<or> (\<exists>r. post = NL # r)"
  shows "takeWhile (\<lambda>x. x \<noteq> NL) (d @ post) = d"
proof -
  from assms(1) have "\<forall>x \<in> set d. x \<noteq> NL"
    using NL_line_terminator by (auto simp: line_free_def)
  with assms(2) show ?thesis by (auto simp: takeWhile_append2)
qed

text \<open>
  Both patterns of the callback match inside every match of the story pattern: the
  defaults \<open>Untitled Story\<close> and \<open>No description\<close> are never taken.
\<close>

lemma defaults_never_taken:
  assumes "mt \<in> set (match_all story_pattern text)"
  shows "match_first title_pattern mt \<noteq> None \<and> match_first desc_pattern mt \<noteq> None"
proof -
  from match_all_mem[OF assms] obtain pre rest c where
    mm: "matcher story_pattern (mt @ rest) [] ret = Some (rest, c)" by blast
  then obtain t d where lf: "line_free t" "line_free d"
    and shape: "mt @ rest = title_marker @ t @ NL # desc_marker @ d @ NL # rest \<or>
        (mt @ rest = title_marker @ t @ NL # desc_marker @ d \<and> rest = [])"
    by (auto simp: story_match_iff)
  then obtain post where mt: "mt = title_marker @ t @ NL # desc_marker @ d @ post"
    and post: "post = [] \<or> post = [NL]" by auto
  have "matcher title_pattern mt [] ret = Some (desc_marker @ d @ post, [(1, t)])"
    unfolding mt using lf(1) by (subst title_match_iff) blast
  from regexp_exec_hit[OF this] have ti: "match_first title_pattern mt \<noteq> None"
    by (simp add: match_first_def)
  from post lf(2) have "matcher desc_pattern (desc_marker @ d @ post) [] ret = Some ([], [(1, d)])"
    by (subst desc_match_iff) auto
  moreover have "mt = (title_marker @ t @ [NL]) @ desc_marker @ d @ post"
    unfolding mt by simp
  then have "suffix (desc_marker @ d @ post) mt" by (rule suffixI)
  ultimately have "regexp_exec desc_pattern mt \<noteq> None"
    by (auto simp: regexp_exec_None)
  then have "match_first desc_pattern mt \<noteq> None"
    by (auto simp: match_first_def)
  with ti show ?thesis by simp
qed

section \<open>Texts of a known shape\<close>

lemma story_of_match_eq:
  "story_of_match e w mt =
     (\<lparr>story_id = digits (clock e (ticks w)) @ random e (draws w), title = title_of mt,
       description = description_of mt, published = False, jira_key = None\<rparr>,
      w\<lparr>ticks := Suc (ticks w), draws := Suc (draws w)\<rparr>)"
  by (simp add: story_of_match_def title_of_def description_of_def date_now_def math_random_def
      Let_def)

lemma title_of_line:
  assumes "line_free t"
  shows "title_of (title_marker @ t @ NL # rest) = t"
proof -
  from assms have "matcher title_pattern (title_marker @ t @ NL # rest) [] ret = Some (rest, [(1, t)])"
    by (subst title_match_iff) blast
  from regexp_exec_hit[OF this] show ?thesis
    by (simp add: title_of_def match_first_def capture_def)
qed

lemma regexp_exec_skip_to:
  assumes "\<forall>v. suffix v pre \<longrightarrow> v \<noteq> [] \<longrightarrow> matcher r (v @ s) [] ret = None"
  shows "regexp_exec r (pre @ s) = regexp_exec r s"
  using assms
proof (induction pre)
  case Nil
  show ?case by simp
next
  case (Cons x pre)
  from Cons.prems[rule_format, of "x # pre"] have "matcher r ((x # pre) @ s) [] ret = None"
    by simp
  then have "regexp_exec r ((x # pre) @ s) = regexp_exec r (pre @ s)"
    using regexp_exec_skip[of r x "pre @ s"] by simp
  moreover from Cons.prems have "\<forall>v. suffix v pre \<longrightarrow> v \<noteq> [] \<longrightarrow> matcher r (v @ s) [] ret = None"
    by (simp add: suffix_Cons)
  ultimately show ?case using Cons.IH by simp
qed

lemma description_of_first:
  assumes "\<forall>v. suffix v pre \<longrightarrow> v \<noteq> [] \<longrightarrow> \<not> prefix desc_marker (v @ desc_marker @ d @ post)"
    and "line_free d" and "post = [] \<or> (\<exists>r. post = NL # r)"
  shows "description_of (pre @ desc_marker @ d @ post) = d"
proof -
  let ?s = "desc_marker @ d @ post"
  from assms(1) have "\<forall>v. suffix v pre \<longrightarrow> v \<noteq> [] \<longrightarrow> matcher desc_pattern (v @ ?s) [] ret = None"
    by (simp add: matcher_desc_pattern)
  from regexp_exec_skip_to[OF this]
  have skip: "regexp_exec desc_pattern (pre @ ?s) = regexp_exec desc_pattern ?s" .
  from assms(3) obtain rest where "matcher desc_pattern ?s [] ret = Some (rest, [(1, d)])"
  proof
    assume "post = []"
    with assms(2) have "matcher desc_pattern ?s [] ret = Some ([], [(1, d)])"
      by (subst desc_match_iff) auto
    then show ?thesis using that by blast
  next
    assume "\<exists>r. post = NL # r"
    then obtain r where "post = NL # r" by blast
    with assms(2) have "matcher desc_pattern ?s [] ret = Some (r, [(1, d)])"
      by (subst desc_match_iff) auto
    then show ?thesis using that by blast
  qed
  from regexp_exec_hit[OF this] skip show ?thesis
    by (simp add: description_of_def match_first_def capture_def)
qed

text \<open>\<open>D\<close>, the first character of the description marker, is code unit 68.\<close>

lemma no_D_no_marker:
  assumes "68 \<notin> set pre"
  shows "\<forall>v. suffix v pre \<longrightarrow> v \<noteq> [] \<longrightarrow> \<not> prefix desc_marker (v @ s)"
proof (intro allI impI)
  fix v assume v: "suffix v pre" "v \<noteq> []"
  then obtain x xs where vx: "v = x # xs" by (cases v) auto
  with v(1) have "x \<in> set pre" by (auto simp: suffix_def)
  with assms have "x \<noteq> 68" by auto
  then show "\<not> prefix desc_marker (v @ s)"
    by (simp add: vx desc_marker_def lit_def)
qed

lemma match_all_hit:
  assumes "matcher r s [] ret = Some (rest, c)" and "length rest < length s"
  shows "match_all r s = take (length s - length rest) s # match_all r rest"
  using assms regexp_exec_hit[OF assms(1)]
  by (subst match_all.simps) auto

lemma exec_None_no_desc:
  assumes "\<not> sublist (NL # desc_marker) text"
  shows "regexp_exec story_pattern text = None"
proof (rule ccontr)
  assume "regexp_exec story_pattern text \<noteq> None"
  then obtain mt c rest where "regexp_exec story_pattern text = Some (mt, c, rest)"
    by (cases "regexp_exec story_pattern text") auto
  from regexp_exec_Some[OF this] obtain pre where tx: "text = pre @ mt @ rest"
    and mm: "matcher story_pattern (mt @ rest) [] ret = Some (rest, c)" by blast
  from mm obtain t d where
    "mt @ rest = title_marker @ t @ NL # desc_marker @ d @ NL # rest \<or>
     (mt @ rest = title_marker @ t @ NL # desc_marker @ d \<and> rest = [])"
    by (auto simp: story_match_iff)
  then obtain post where "mt @ rest = (title_marker @ t) @ (NL # desc_marker) @ post"
    by auto
  with tx have "text = (pre @ title_marker @ t) @ (NL # desc_marker) @ post" by simp
  then have "sublist (NL # desc_marker) text" unfolding sublist_def by blast
  with assms show False by simp
qed

lemma match_all_no_desc:
  "\<not> sublist (NL # desc_marker) s \<Longrightarrow> match_all story_pattern s = []"
  by (simp add: exec_None_no_desc match_all_None)

lemma no_D_no_desc:
  assumes "68 \<notin> set s"
  shows "\<not> sublist (NL # desc_marker) s"
proof
  assume "sublist (NL # desc_marker) s"
  then have "set (NL # desc_marker) \<subseteq> set s" by (auto simp: sublist_def)
  moreover have "68 \<in> set desc_marker" by (simp add: desc_marker_def lit_def)
  ultimately show False using assms by auto
qed

lemma match_all_story_nl:
  assumes "line_free t" and "line_free d"
  shows "match_all story_pattern (title_marker @ t @ NL # desc_marker @ d @ NL # rest) =
     (title_marker @ t @ NL # desc_marker @ d @ [NL]) # match_all story_pattern rest"
proof -
  let ?s = "title_marker @ t @ NL # desc_marker @ d @ NL # rest"
  from assms have "matcher story_pattern ?s [] ret = Some (rest, [(2, d), (1, t)])"
    by (subst story_match_iff) blast
  from match_all_hit[OF this] show ?thesis by simp
qed

lemma match_all_story_end:
  assumes "line_free t" and "line_free d"
  shows "match_all story_pattern (title_marker @ t @ NL # desc_marker @ d) =
     [title_marker @ t @ NL # desc_marker @ d]"
proof -
  let ?s = "title_marker @ t @ NL # desc_marker @ d"
  from assms have "matcher story_pattern ?s [] ret = Some ([], [(2, d), (1, t)])"
    by (subst story_match_iff) blast
  from match_all_hit[OF this] have "match_all story_pattern ?s = ?s # match_all story_pattern []"
    by (simp add: title_marker_def lit_def)
  moreover have "match_all story_pattern [] = []"
    by (rule match_all_None) (simp add: regexp_exec_None matcher_story_pattern title_marker_def lit_def)
  ultimately show ?thesis by simp
qed

text \<open>
  A title line that is not directly followed by a description line: no match of the story
  pattern starts at its marker or anywhere else in the line, so the search passes over it.
\<close>

lemma line_free_suffix: "line_free s \<Longrightarrow> suffix v s \<Longrightarrow> line_free v"
  by (auto simp: line_free_def suffix_def)

lemma line_free_append: "line_free (a @ b) \<longleftrightarrow> line_free a \<and> line_free b"
  by (auto simp: line_free_def)

lemma takeWhile_line_rest:
  assumes "line_free v" and "rest = [] \<or> is_line_terminator (hd rest)"
  shows "takeWhile (\<lambda>x. \<not> is_line_terminator x) (v @ rest) = v"
  using assms by (cases rest) (auto simp: line_free_def takeWhile_append2)

lemma half_line_no_match:
  assumes "line_free t" and "rest = [] \<or> is_line_terminator (hd rest)"
    and "\<not> prefix (NL # desc_marker) rest"
    and "suffix v (title_marker @ t)"
  shows "matcher story_pattern (v @ rest) [] ret = None"
proof (rule ccontr)
  let ?P = "\<lambda>x. \<not> is_line_terminator x"
  assume "matcher story_pattern (v @ rest) [] ret \<noteq> None"
  then obtain r c where "matcher story_pattern (v @ rest) [] ret = Some (r, c)"
    by (cases "matcher story_pattern (v @ rest) [] ret") auto
  then obtain t' post where lf: "line_free t'"
    and shape: "v @ rest = (title_marker @ t') @ NL # desc_marker @ post"
    by (auto simp: story_match_iff)
  from assms(1,4) have lv: "line_free v"
    using line_free_suffix line_free_append line_free_title_marker by blast
  from lf have "line_free (title_marker @ t')"
    by (simp add: line_free_append line_free_title_marker)
  then have "takeWhile ?P ((title_marker @ t') @ NL # desc_marker @ post) = title_marker @ t'"
    by (rule takeWhile_line)
  moreover have "takeWhile ?P (v @ rest) = v" by (rule takeWhile_line_rest[OF lv assms(2)])
  ultimately have "v = title_marker @ t'" using shape by simp
  with shape have "rest = NL # desc_marker @ post" by simp
  with assms(3) show False by simp
qed

lemma regexp_exec_half_line:
  assumes "line_free t" and "rest = [] \<or> is_line_terminator (hd rest)"
    and "\<not> prefix (NL # desc_marker) rest"
  shows "regexp_exec story_pattern (title_marker @ t @ rest) = regexp_exec story_pattern rest"
proof -
  have "\<forall>v. suffix v (title_marker @ t) \<longrightarrow> v \<noteq> [] \<longrightarrow> matcher story_pattern (v @ rest) [] ret = None"
    using half_line_no_match[OF assms] by blast
  from regexp_exec_skip_to[OF this] show ?thesis by simp
qed

lemma match_all_half_line:
  assumes "line_free t" and "rest = [] \<or> is_line_terminator (hd rest)"
    and "\<not> prefix (NL # desc_marker) rest"
  shows "match_all story_pattern (title_marker @ t @ rest) = match_all story_pattern rest"
  by (rule match_all_cong_exec, rule regexp_exec_half_line[OF assms])

text \<open>\<open>S\<close>, the first character of the title marker, is code unit 83.\<close>

lemma match_all_skip:
  assumes "83 \<notin> set pre"
  shows "match_all story_pattern (pre @ s) = match_all story_pattern s"
proof -
  have "\<forall>v. suffix v pre \<longrightarrow> v \<noteq> [] \<longrightarrow> matcher story_pattern (v @ s) [] ret = None"
  proof (intro allI impI)
    fix v assume v: "suffix v pre" "v \<noteq> []"
    then obtain x xs where vx: "v = x # xs" by (cases v) auto
    with v(1) have "x \<in> set pre" by (auto simp: suffix_def)
    with assms have "x \<noteq> 83" by auto
    then have "\<not> prefix title_marker (v @ s)" by (simp add: vx title_marker_def lit_def)
    then show "matcher story_pattern (v @ s) [] ret = None" by (simp add: matcher_story_pattern)
  qed
  from regexp_exec_skip_to[OF this] show ?thesis by (rule match_all_cong_exec)
qed

lemma map_stories_sent:
  "sent (snd (map_stories e w ms)) = sent w \<and> console (snd (map_stories e w ms)) = console w
     \<and> alerts (snd (map_stories e w ms)) = alerts w"
proof (induction ms arbitrary: w)
  case Nil
  show ?case by simp
next
  case (Cons mt ms)
  obtain s w1 where s: "story_of_match e w mt = (s, w1)" by (cases "story_of_match e w mt")
  obtain ss w2 where ss: "map_stories e w1 ms = (ss, w2)" by (cases "map_stories e w1 ms")
  from s have "sent w1 = sent w \<and> console w1 = console w \<and> alerts w1 = alerts w"
    by (auto simp: story_of_match_def date_now_def math_random_def Let_def)
  with Cons.IH[of w1] show ?case by (simp add: s ss)
qed

lemma extract_stories_world:
  "sent (snd (extract_stories e w text)) = sent w
   \<and> console (snd (extract_stories e w text)) = console w
   \<and> alerts (snd (extract_stories e w text)) = alerts w"
proof (cases "match_g story_pattern text")
  case None
  then show ?thesis by (simp add: extract_stories_def)
next
  case (Some ms)
  with map_stories_sent[of e w ms] show ?thesis
    by (auto simp: extract_stories_def split: prod.splits)
qed

section \<open>What extraction reads, and the ids it builds\<close>

text \<open>
  Every candidate takes one reading of the clock and one draw of the random number
  generator, in order; nothing else of the environment and of the world enters a
  candidate.
\<close>

lemma map_stories_Cons:
  "fst (map_stories e w (mt # ms)) =
     fst (story_of_match e w mt) #
       fst (map_stories e (w\<lparr>ticks := Suc (ticks w), draws := Suc (draws w)\<rparr>) ms)"
  by (simp add: story_of_match_eq split: prod.splits)

lemma map_stories_reads:
  assumes "clock e1 = clock e2" and "random e1 = random e2"
  shows "ticks w1 = ticks w2 \<Longrightarrow> draws w1 = draws w2 \<Longrightarrow>
     fst (map_stories e1 w1 ms) = fst (map_stories e2 w2 ms)"
proof (induction ms arbitrary: w1 w2)
  case Nil
  show ?case by simp
next
  case (Cons mt ms)
  have "fst (map_stories e1 (w1\<lparr>ticks := Suc (ticks w1), draws := Suc (draws w1)\<rparr>) ms) =
      fst (map_stories e2 (w2\<lparr>ticks := Suc (ticks w2), draws := Suc (draws w2)\<rparr>) ms)"
    by (rule Cons.IH) (simp_all add: Cons.prems)
  moreover have "fst (story_of_match e1 w1 mt) = fst (story_of_match e2 w2 mt)"
    by (simp add: story_of_match_eq assms Cons.prems)
  ultimately show ?case by (simp only: map_stories_Cons)
qed

lemma candidates_reads:
  assumes "clock e1 = clock e2" and "random e1 = random e2"
    and "ticks w1 = ticks w2" and "draws w1 = draws w2"
  shows "candidates e1 w1 text = candidates e2 w2 text"
  unfolding candidates_eq by (rule map_stories_reads[OF assms])

lemma extract_candidates:
  "extract_stories e w text = (x, y) \<Longrightarrow>
     (case x of None \<Rightarrow> [] | Some ss \<Rightarrow> ss) = candidates e w text \<and> sent y = sent w"
proof
  assume a: "extract_stories e w text = (x, y)"
  then show "(case x of None \<Rightarrow> [] | Some ss \<Rightarrow> ss) = candidates e w text"
    by (simp add: candidates_def)
  from a show "sent y = sent w"
    by (metis extract_stories_world snd_conv)
qed

lemma map_stories_ids:
  "map story_id (fst (map_stories e w ms)) =
     map (\<lambda>k. digits (clock e (ticks w + k)) @ random e (draws w + k)) [0..<length ms]
   \<and> snd (map_stories e w ms) = w\<lparr>ticks := ticks w + length ms, draws := draws w + length ms\<rparr>"
proof (induction ms arbitrary: w)
  case Nil
  show ?case by simp
next
  case (Cons mt ms)
  let ?w1 = "w\<lparr>ticks := Suc (ticks w), draws := Suc (draws w)\<rparr>"
  obtain ss w2 where ss: "map_stories e ?w1 ms = (ss, w2)" by (cases "map_stories e ?w1 ms")
  from Cons.IH[of ?w1] ss
  have ih: "map story_id ss =
      map (\<lambda>k. digits (clock e (Suc (ticks w + k))) @ random e (Suc (draws w + k))) [0..<length ms]"
    and w2: "w2 = w\<lparr>ticks := Suc (ticks w + length ms), draws := Suc (draws w + length ms)\<rparr>"
    by simp_all
  have "map (\<lambda>k. digits (clock e (ticks w + k)) @ random e (draws w + k)) [0..<Suc (length ms)] =
      (digits (clock e (ticks w)) @ random e (draws w)) #
      map (\<lambda>k. digits (clock e (Suc (ticks w + k))) @ random e (Suc (draws w + k))) [0..<length ms]"
    by (simp add: upt_conv_Cons map_Suc_upt[symmetric] del: upt_Suc)
  with ih w2 show ?case by (simp add: story_of_match_eq ss del: upt_Suc)
qed

lemma candidates_length: "length (candidates e w text) = length (match_all story_pattern text)"
proof -
  have "length (map (\<lambda>s. (title s, description s, published s, jira_key s))
      (fst (map_stories e w (match_all story_pattern text)))) =
      length (map (\<lambda>mt. (title_of mt, description_of mt, False, None::jsstring option))
        (match_all story_pattern text))"
    by (simp only: map_stories_fields)
  then show ?thesis by (simp add: candidates_eq)
qed

lemma candidates_ids:
  "map story_id (candidates e w text) =
     map (\<lambda>k. digits (clock e (ticks w + k)) @ random e (draws w + k))
       [0..<length (candidates e w text)]"
  unfolding candidates_length unfolding candidates_eq
  by (rule map_stories_ids[THEN conjunct1])

lemma extract_stories_reads:
  "snd (extract_stories e w text) =
     w\<lparr>ticks := ticks w + length (candidates e w text),
       draws := draws w + length (candidates e w text)\<rparr>"
proof (cases "match_all story_pattern text")
  case Nil
  then show ?thesis by (simp add: candidates_length extract_stories_def match_g_def)
next
  case (Cons m ms)
  obtain ss w2 where ss: "map_stories e w (m # ms) = (ss, w2)" by (cases "map_stories e w (m # ms)")
  from map_stories_ids[of e w "m # ms", THEN conjunct2] ss
  have "w2 = w\<lparr>ticks := ticks w + length (m # ms), draws := draws w + length (m # ms)\<rparr>"
    by (simp only: snd_conv)
  then show ?thesis
    by (simp add: candidates_length extract_stories_def match_g_def Cons ss del: map_stories.simps)
qed

text \<open>
  An id is the decimal digits of the clock reading followed by the string conversion of
  the draw. The string conversion of a number in the interval from 0 to 1 (\<open>0\<close>, \<open>0.25\<close>,
  \<open>5e-7\<close>, \<open>1.5e-7\<close>) is one digit followed by nothing or by a character that is not a
  digit, so the id determines the draw.
\<close>

definition is_digit :: "jschar \<Rightarrow> bool" where
  "is_digit c = (48 \<le> c \<and> c \<le> 57)"

definition fraction_string :: "jsstring \<Rightarrow> bool" where
  "fraction_string r =
     (case r of [] \<Rightarrow> False
      | c # r' \<Rightarrow> is_digit c \<and> (case r' of [] \<Rightarrow> True | x # xs \<Rightarrow> \<not> is_digit x))"

lemma digits_are_digits: "\<forall>c \<in> set (digits n). is_digit c"
proof (induction n rule: digits.induct)
  case (1 n)
  show ?case
  proof (cases "n < 10")
    case True
    then show ?thesis by (subst digits.simps) (simp add: is_digit_def)
  next
    case False
    have "n mod 10 < 10" by simp
    then have "is_digit (48 + n mod 10)" unfolding is_digit_def by linarith
    with 1[OF False] False show ?thesis by (subst digits.simps) simp
  qed
qed

lemma span_all:
  assumes "\<forall>x \<in> set a. P x" and "b = [] \<or> \<not> P (hd b)"
  shows "takeWhile P (a @ b) = a \<and> dropWhile P (a @ b) = b"
  using assms by (induction a) (cases b; auto)+

lemma id_split:
  assumes "fraction_string r"
  shows "takeWhile is_digit (digits n @ r) = digits n @ [hd r]
       \<and> dropWhile is_digit (digits n @ r) = tl r"
proof -
  from assms obtain c r' where r: "r = c # r'" and c: "is_digit c"
    and r': "r' = [] \<or> \<not> is_digit (hd r')"
    by (cases r) (auto simp: fraction_string_def split: list.splits)
  have d: "\<forall>x \<in> set (digits n @ [c]). is_digit x" using digits_are_digits c by auto
  from span_all[OF d r'] show ?thesis by (simp add: r)
qed

lemma id_determines_draw:
  assumes "fraction_string r1" and "fraction_string r2"
    and "digits n1 @ r1 = digits n2 @ r2"
  shows "r1 = r2"
proof -
  from id_split[OF assms(1), of n1] id_split[OF assms(2), of n2] assms(3)
  have "digits n1 @ [hd r1] = digits n2 @ [hd r2]" "tl r1 = tl r2" by simp_all
  then have "hd r1 = hd r2" "tl r1 = tl r2" by simp_all
  moreover from assms(1,2) have "r1 \<noteq> []" "r2 \<noteq> []" by (auto simp: fraction_string_def)
  ultimately show ?thesis by (metis list.collapse)
qed

lemma ids_distinct:
  assumes "distinct (map r xs)" and "\<forall>k \<in> set xs. fraction_string (r k)"
  shows "distinct (map (\<lambda>k. digits (c k) @ r k) xs)"
proof -
  from assms(1) have d: "distinct xs" and i: "inj_on r (set xs)" by (simp_all add: distinct_map)
  have "inj_on (\<lambda>k. digits (c k) @ r k) (set xs)"
  proof (rule inj_onI)
    fix x y assume x: "x \<in> set xs" and y: "y \<in> set xs"
      and eq: "digits (c x) @ r x = digits (c y) @ r y"
    from id_determines_draw[OF _ _ eq] assms(2) x y have "r x = r y" by blast
    with i x y show "x = y" by (auto dest: inj_onD)
  qed
  with d show ?thesis by (simp add: distinct_map)
qed

text \<open>
  The digits determine the number, so an id determines its clock reading as well: two ids
  are equal exactly when both their readings and their draws are.
\<close>

lemma digits_value: "foldl (\<lambda>a c. 10 * a + (c - 48)) 0 (digits n) = n"
proof (induction n rule: digits.induct)
  case (1 n)
  show ?case
  proof (cases "n < 10")
    case True
    then show ?thesis by (subst digits.simps) simp
  next
    case False
    with 1[OF False] show ?thesis by (subst digits.simps) simp
  qed
qed

lemma digits_inj: "digits n = digits m \<Longrightarrow> n = m"
  by (metis digits_value)

lemma id_eq_iff:
  assumes "fraction_string r1" and "fraction_string r2"
  shows "digits n1 @ r1 = digits n2 @ r2 \<longleftrightarrow> n1 = n2 \<and> r1 = r2"
proof
  assume eq: "digits n1 @ r1 = digits n2 @ r2"
  from id_split[OF assms(1), of n1] id_split[OF assms(2), of n2] eq
  have "digits n1 @ [hd r1] = digits n2 @ [hd r2]" by simp
  then have "digits n1 = digits n2" by simp
  then have "n1 = n2" by (rule digits_inj)
  with id_determines_draw[OF assms eq] show "n1 = n2 \<and> r1 = r2" by simp
qed simp

lemma ids_distinct_iff:
  assumes "\<forall>k \<in> set xs. fraction_string (r k)"
  shows "distinct (map (\<lambda>k. digits (c k) @ r k) xs) \<longleftrightarrow> distinct (map (\<lambda>k. (c k, r k)) xs)"
proof -
  have "inj_on (\<lambda>k. digits (c k) @ r k) (set xs) \<longleftrightarrow> inj_on (\<lambda>k. (c k, r k)) (set xs)"
    using assms by (auto simp: inj_on_def id_eq_iff)
  then show ?thesis by (simp add: distinct_map)
qed

lemma two_runs_ids_distinct:
  assumes "inj (random e)" and "\<forall>k. fraction_string (random e k)"
    and "d1 + n1 \<le> d2"
  shows "distinct (map (\<lambda>k. digits (clock e (t1 + k)) @ random e (d1 + k)) [0..<n1] @
                   map (\<lambda>k. digits (clock e (t2 + k)) @ random e (d2 + k)) [0..<n2])"
proof -
  let ?xs = "map (\<lambda>k. (t1 + k, d1 + k)) [0..<n1] @ map (\<lambda>k. (t2 + k, d2 + k)) [0..<n2]"
  have s: "map snd ?xs = [d1..<d1 + n1] @ [d2..<d2 + n2]"
    using map_add_upt[of d1 n1] map_add_upt[of d2 n2]
    by (simp add: o_def add.commute)
  have "distinct (map snd ?xs)"
    unfolding s using assms(3) by auto
  then have "distinct (map (random e) (map snd ?xs))"
    using assms(1) by (simp only: distinct_map) (auto intro: inj_on_subset)
  then have "distinct (map (\<lambda>p. random e (snd p)) ?xs)" by (simp add: o_def)
  moreover have "\<forall>p \<in> set ?xs. fraction_string (random e (snd p))" using assms(2) by simp
  ultimately have "distinct (map (\<lambda>p. digits (clock e (fst p)) @ random e (snd p)) ?xs)"
    by (rule ids_distinct)
  then show ?thesis by (simp add: o_def)
qed

section \<open>Texts without a marker and texts of two pairs\<close>

text \<open>A text that nowhere contains \<open>Story Title:\<close> has no candidates.\<close>

lemma no_marker_no_candidates:
  assumes "\<not> sublist (lit ''Story Title:'') text"
  shows "candidates e w text = []"
proof -
  have "regexp_exec story_pattern text = None"
  proof (rule ccontr)
    assume "regexp_exec story_pattern text \<noteq> None"
    then obtain mt c rest where "regexp_exec story_pattern text = Some (mt, c, rest)"
      by (cases "regexp_exec story_pattern text") auto
    from regexp_exec_Some[OF this] obtain pre where tx: "text = pre @ mt @ rest"
      and mm: "matcher story_pattern (mt @ rest) [] ret = Some (rest, c)" by blast
    from mm obtain post where "mt @ rest = title_marker @ post"
      by (auto simp: story_match_iff)
    moreover have "title_marker = lit ''Story Title:'' @ [32]"
      by (simp add: title_marker_def lit_def)
    ultimately have "text = pre @ lit ''Story Title:'' @ (32 # post)" using tx by simp
    then have "sublist (lit ''Story Title:'') text" unfolding sublist_def by blast
    with assms show False by simp
  qed
  then show ?thesis by (simp add: candidates_eq match_all_None)
qed

text \<open>
  The description of a pair is read back correctly when its title does not contain the
  text \<open>Description: \<close>: then the first occurrence of that text in the matched substring
  is the one that starts the description line.
\<close>

lemma no_desc_in_title_line:
  assumes "\<not> sublist desc_marker t"
  shows "\<not> sublist desc_marker (title_marker @ t)"
proof
  assume "sublist desc_marker (title_marker @ t)"
  then consider "sublist desc_marker title_marker" | "sublist desc_marker t"
    | xs1 xs2 where "desc_marker = xs1 @ xs2" "suffix xs1 title_marker" "prefix xs2 t"
    by (auto simp: sublist_append)
  then show False
  proof cases
    case 1
    then obtain ps ss where "title_marker = ps @ desc_marker @ ss" by (auto simp: sublist_def)
    then have "set desc_marker \<subseteq> set title_marker" by (metis set_mono_sublist sublist_appendI)
    moreover have "68 \<in> set desc_marker" by (simp add: desc_marker_def lit_def)
    moreover have "68 \<notin> set title_marker" by (simp add: title_marker_def lit_def)
    ultimately show False by auto
  next
    case 2
    with assms show False by simp
  next
    case 3
    show False
    proof (cases xs1)
      case Nil
      with 3 have "prefix desc_marker t" by simp
      then have "sublist desc_marker t" by (rule prefix_imp_sublist)
      with assms show False by simp
    next
      case (Cons x xs)
      with 3(1) have "x = 68" by (cases desc_marker) (auto simp: desc_marker_def lit_def)
      moreover from Cons 3(2) obtain zs where "title_marker = zs @ x # xs"
        by (auto simp: suffix_def)
      then have "x \<in> set title_marker" by (metis in_set_conv_decomp)
      ultimately show False by (simp add: title_marker_def lit_def)
    qed
  qed
qed

lemma description_of_pair:
  assumes "line_free d" and "\<not> sublist desc_marker t" and "post = [] \<or> (\<exists>r. post = NL # r)"
  shows "description_of (title_marker @ t @ NL # desc_marker @ d @ post) = d"
proof -
  let ?R = "desc_marker @ d @ post"
  have "\<forall>v. suffix v (title_marker @ t @ [NL]) \<longrightarrow> v \<noteq> [] \<longrightarrow> \<not> prefix desc_marker (v @ ?R)"
  proof (intro allI impI notI)
    fix v
    assume v: "suffix v (title_marker @ t @ [NL])" "v \<noteq> []" and p: "prefix desc_marker (v @ ?R)"
    from v obtain v' where v': "v = v' @ [NL]" "suffix v' (title_marker @ t)"
      by (metis append_assoc suffix_snoc)
    have nl: "NL \<notin> set desc_marker"
      using line_free_desc_marker NL_line_terminator by (auto simp: line_free_def)
    from p v'(1) have "prefix desc_marker (v' @ NL # ?R)" by simp
    then consider "prefix desc_marker v'" | us where "desc_marker = v' @ us" "prefix us (NL # ?R)"
      by (auto simp: prefix_append)
    then show False
    proof cases
      case 1
      with v'(2) obtain a b where "v' = desc_marker @ a" "title_marker @ t = b @ v'"
        by (auto simp: prefix_def suffix_def)
      then have "title_marker @ t = b @ desc_marker @ a" by simp
      then have "sublist desc_marker (title_marker @ t)" by (metis sublist_appendI)
      with no_desc_in_title_line[OF assms(2)] show False by simp
    next
      case 2
      show False
      proof (cases us)
        case Nil
        with 2 v'(2) have "sublist desc_marker (title_marker @ t)"
          by (simp add: suffix_imp_sublist)
        with no_desc_in_title_line[OF assms(2)] show False by simp
      next
        case (Cons u us')
        with 2(2) have "u = NL" by simp
        with 2(1) Cons have "NL \<in> set desc_marker" by (metis in_set_conv_decomp)
        with nl show False by simp
      qed
    qed
  qed
  from description_of_first[OF this assms(1,3)] show ?thesis by simp
qed

text \<open>
  Two pairs, one after the other, the last line with or without its newline: two
  candidates with the titles and descriptions of the pairs, provided that neither title
  contains \<open>Description: \<close>.
\<close>

lemma two_pairs_candidates:
  assumes "line_free t1" and "line_free d1" and "line_free t2" and "line_free d2"
    and "\<not> sublist desc_marker t1" and "\<not> sublist desc_marker t2"
    and "tail = [] \<or> tail = [NL]"
  shows "map (\<lambda>s. (title s, description s))
           (candidates e w (title_marker @ t1 @ NL # desc_marker @ d1 @ NL #
                            title_marker @ t2 @ NL # desc_marker @ d2 @ tail)) =
         [(t1, d1), (t2, d2)]"
proof -
  let ?m1 = "title_marker @ t1 @ NL # desc_marker @ d1 @ [NL]"
  let ?m2 = "title_marker @ t2 @ NL # desc_marker @ d2 @ tail"
  have e: "match_all story_pattern [] = []"
    by (rule match_all_None) (simp add: regexp_exec_None matcher_story_pattern title_marker_def lit_def)
  have m2: "match_all story_pattern ?m2 = [?m2]"
    using assms(7) match_all_story_end[OF assms(3,4)] match_all_story_nl[OF assms(3,4), of "[]"] e
    by auto
  have ma: "match_all story_pattern (title_marker @ t1 @ NL # desc_marker @ d1 @ NL # ?m2) =
      [?m1, ?m2]"
    by (simp add: match_all_story_nl[OF assms(1,2)] m2)
  have f1: "title_of ?m1 = t1" "description_of ?m1 = d1"
    using title_of_line[OF assms(1)] description_of_pair[OF assms(2,5), of "[NL]"] by simp_all
  have "tail = [] \<or> (\<exists>r. tail = NL # r)" using assms(7) by auto
  then have f2: "title_of ?m2 = t2" "description_of ?m2 = d2"
    using title_of_line[OF assms(3)] description_of_pair[OF assms(4,6)] by simp_all
  have "map (\<lambda>s. (title s, description s, published s, jira_key s))
      (candidates e w (title_marker @ t1 @ NL # desc_marker @ d1 @ NL # ?m2)) =
      [(t1, d1, False, None), (t2, d2, False, None)]"
    by (simp only: candidates_eq map_stories_fields ma list.map f1 f2)
  then show ?thesis by (auto simp: map_eq_Cons_conv)
qed

section \<open>Example inputs\<close>

text \<open>A backend that rejects every request, one that accepts every request with an empty
  answer, a clock that advances by one millisecond per read and a random number generator
  whose \<open>n\<close>-th value prints as the digits of \<open>n\<close>.\<close>

definition env_down :: env where
  "env_down = \<lparr>backend = (\<lambda>h r. Rejected), clock = (\<lambda>n. n), random = digits\<rparr>"

definition env_up :: env where
  "env_up = \<lparr>backend = (\<lambda>h r. Resolved OtherData), clock = (\<lambda>n. n), random = digits\<rparr>"

definition world0 :: world where
  "world0 = \<lparr>sent = [], ticks = 0, draws = 0, console = [], alerts = []\<rparr>"

definition chat_hi :: chat where
  "chat_hi = \<lparr>messages = [], input = lit ''hi'', isLoading = False, isUploading = False\<rparr>"

definition text_multiline :: jsstring where
  "text_multiline =
     lit ''Story Title: A'' @ [NL] @ lit ''Description: line1'' @ [NL] @ lit ''line2''"

definition text_half_pair :: jsstring where
  "text_half_pair = lit ''Story Title: Login page'' @ [NL] @ lit ''As a user I want to log in''"

definition text_tricky :: jsstring where
  "text_tricky =
     lit ''Story Title: Fix Description: label'' @ [NL] @ lit ''Description: real text'' @ [NL] @
     lit ''Story Title: B'' @ [NL] @ lit ''Description: c''"

text \<open>A backend that answers the chat with the two stories of \<open>text_tricky\<close> and rejects
  the first request that follows; a backend that publishes every story as \<open>PO-1\<close>; a
  draft story, a view that shows it, a published story of the store and a file.\<close>

definition env_flaky :: env where
  "env_flaky =
     \<lparr>backend = (\<lambda>h r. case r of
          Post u (ChatBody msg p) \<Rightarrow> Resolved (ChatData text_tricky)
        | Post u (StoryBody p s) \<Rightarrow> if length h = 1 then Rejected else Resolved OtherData
        | _ \<Rightarrow> Rejected),
      clock = (\<lambda>n. n), random = digits\<rparr>"

definition env_jira :: env where
  "env_jira = \<lparr>backend = (\<lambda>h r. Resolved (PublishData (lit ''PO-1''))), clock = (\<lambda>n. n),
     random = digits\<rparr>"

definition draft0 :: story where
  "draft0 = \<lparr>story_id = lit ''1'', title = lit ''A'', description = lit ''a'', published = False,
     jira_key = None\<rparr>"

definition view0 :: stories_view where
  "view0 = \<lparr>stories = [draft0], editingStory = None, isPublishing = None, message = None\<rparr>"

definition stored0 :: stored_story where
  "stored0 = \<lparr>stored_id = lit ''1'', project_key = lit ''PO'', stored_title = lit ''A'',
     stored_description = lit ''a'', story_status = Published, external_key = Some (lit ''PO-1''),
     created_at = 1, updated_at = 2\<rparr>"

definition file0 :: upload_file where
  "file0 = \<lparr>file_name = lit ''brd.txt'', file_type = lit ''text/plain'', file_text = lit ''x''\<rparr>"

text \<open>A second draft story and a page that shows both drafts.\<close>

definition draft1 :: story where
  "draft1 = \<lparr>story_id = lit ''2'', title = lit ''B'', description = lit ''b'', published = False,
     jira_key = None\<rparr>"

definition page0 :: page where
  "page0 = \<lparr>view = \<lparr>stories = [draft0, draft1], editingStory = None, isPublishing = None,
     message = None\<rparr>, inflight = [], requested = []\<rparr>"

text \<open>
  A text in which a complete pair is followed by a title line without a description line
  and by another complete pair.
\<close>

definition text_mixed :: jsstring where
  "text_mixed =
     lit ''Story Title: A'' @ [NL] @ lit ''Description: a'' @ [NL] @
     lit ''Story Title: Login page'' @ [NL] @ lit ''As a user I want to log in'' @ [NL] @
     lit ''Story Title: B'' @ [NL] @ lit ''Description: c''"

text \<open>
  A run within one millisecond: the clock stands still and the draws are \<open>0.0\<close>, \<open>0.1\<close>
  and so on. And an environment whose random number generator repeats itself.
\<close>

definition env_same_ms :: env where
  "env_same_ms = \<lparr>backend = (\<lambda>h r. Rejected), clock = (\<lambda>n. 7),
     random = (\<lambda>n. lit ''0.'' @ digits n)\<rparr>"

definition env_stuck :: env where
  "env_stuck = \<lparr>backend = (\<lambda>h r. Rejected), clock = (\<lambda>n. 7), random = (\<lambda>n. lit ''0.5'')\<rparr>"

section \<open>The example texts\<close>

lemma text_multiline_shape:
  "text_multiline = title_marker @ lit ''A'' @ NL # desc_marker @ lit ''line1'' @ NL # lit ''line2''"
  by (simp add: text_multiline_def title_marker_def desc_marker_def lit_def)

lemma extract_multiline:
  "extract_stories e w text_multiline =
     (Some [\<lparr>story_id = digits (clock e (ticks w)) @ random e (draws w), title = lit ''A'',
        description = lit ''line1'', published = False, jira_key = None\<rparr>],
      w\<lparr>ticks := Suc (ticks w), draws := Suc (draws w)\<rparr>)"
proof -
  have lf: "line_free (lit ''A'')" "line_free (lit ''line1'')"
    by (simp_all add: line_free_def lit_def is_line_terminator_def)
  have tail: "match_all story_pattern (lit ''line2'') = []"
    by (rule match_all_no_desc, rule no_D_no_desc) (simp add: lit_def)
  let ?m = "title_marker @ lit ''A'' @ NL # desc_marker @ lit ''line1'' @ [NL]"
  have ma: "match_all story_pattern text_multiline = [?m]"
    by (simp add: text_multiline_shape match_all_story_nl[OF lf] tail)
  have ti: "title_of ?m = lit ''A''"
    by (rule title_of_line[OF lf(1)])
  have "description_of ((title_marker @ lit ''A'' @ [NL]) @ desc_marker @ lit ''line1'' @ [NL]) =
      lit ''line1''"
  proof (rule description_of_first)
    show "\<forall>v. suffix v (title_marker @ lit ''A'' @ [NL]) \<longrightarrow> v \<noteq> [] \<longrightarrow>
        \<not> prefix desc_marker (v @ desc_marker @ lit ''line1'' @ [NL])"
      by (rule no_D_no_marker) (simp add: title_marker_def lit_def NL_def)
  qed (simp_all add: lf)
  then have de: "description_of ?m = lit ''line1''" by simp
  show ?thesis
    by (simp add: extract_stories_def match_g_def ma story_of_match_eq ti de)
qed

lemma cand_multiline:
  "candidates env_up world0 text_multiline =
     [\<lparr>story_id = lit ''00'', title = lit ''A'', description = lit ''line1'', published = False,
       jira_key = None\<rparr>]"
  by (simp add: candidates_def extract_multiline env_up_def world0_def digits.simps lit_def)

lemma half_pair_no_desc: "\<not> sublist (NL # desc_marker) text_half_pair"
  by (rule no_D_no_desc) (simp add: text_half_pair_def lit_def NL_def)

lemma text_tricky_shape:
  "text_tricky =
     title_marker @ lit ''Fix Description: label'' @ NL # desc_marker @ lit ''real text'' @ NL #
     (title_marker @ lit ''B'' @ NL # desc_marker @ lit ''c'')"
  by (simp add: text_tricky_def title_marker_def desc_marker_def lit_def)

lemma match_all_tricky:
  "match_all story_pattern text_tricky =
     [title_marker @ lit ''Fix Description: label'' @ NL # desc_marker @ lit ''real text'' @ [NL],
      title_marker @ lit ''B'' @ NL # desc_marker @ lit ''c'']"
proof -
  have lf: "line_free (lit ''Fix Description: label'')" "line_free (lit ''real text'')"
    "line_free (lit ''B'')" "line_free (lit ''c'')"
    by (simp_all add: line_free_def lit_def is_line_terminator_def)
  show ?thesis
    by (simp add: text_tricky_shape match_all_story_nl[OF lf(1,2)] match_all_story_end[OF lf(3,4)])
qed

lemma fields_tricky_first:
  "title_of (title_marker @ lit ''Fix Description: label'' @ NL # desc_marker @ lit ''real text'' @ [NL])
     = lit ''Fix Description: label''"
  "description_of
     (title_marker @ lit ''Fix Description: label'' @ NL # desc_marker @ lit ''real text'' @ [NL])
     = lit ''label''"
proof -
  let ?t1 = "lit ''Fix Description: label''" and ?d1 = "lit ''real text''"
  let ?m1 = "title_marker @ ?t1 @ NL # desc_marker @ ?d1 @ [NL]"
  have lf: "line_free ?t1" "line_free (lit ''label'')"
    by (simp_all add: line_free_def lit_def is_line_terminator_def)
  show "title_of ?m1 = ?t1" by (rule title_of_line[OF lf(1)])
  have "description_of ((title_marker @ lit ''Fix '') @ desc_marker @ lit ''label'' @
      NL # desc_marker @ ?d1 @ [NL]) = lit ''label''"
  proof (rule description_of_first)
    show "\<forall>v. suffix v (title_marker @ lit ''Fix '') \<longrightarrow> v \<noteq> [] \<longrightarrow>
        \<not> prefix desc_marker (v @ desc_marker @ lit ''label'' @ NL # desc_marker @ ?d1 @ [NL])"
      by (rule no_D_no_marker) (simp add: title_marker_def lit_def)
  qed (simp_all add: lf)
  moreover have "?m1 = (title_marker @ lit ''Fix '') @ desc_marker @ lit ''label'' @
      NL # desc_marker @ ?d1 @ [NL]"
    by (simp add: desc_marker_def lit_def)
  ultimately show "description_of ?m1 = lit ''label''" by simp
qed

lemma fields_tricky_second:
  "title_of (title_marker @ lit ''B'' @ NL # desc_marker @ lit ''c'') = lit ''B''"
  "description_of (title_marker @ lit ''B'' @ NL # desc_marker @ lit ''c'') = lit ''c''"
proof -
  let ?t2 = "lit ''B''" and ?d2 = "lit ''c''"
  have lf: "line_free ?t2" "line_free ?d2"
    by (simp_all add: line_free_def lit_def is_line_terminator_def)
  show "title_of (title_marker @ ?t2 @ NL # desc_marker @ ?d2) = ?t2"
    by (rule title_of_line[OF lf(1)])
  have "description_of ((title_marker @ ?t2 @ [NL]) @ desc_marker @ ?d2 @ []) = ?d2"
  proof (rule description_of_first)
    show "\<forall>v. suffix v (title_marker @ ?t2 @ [NL]) \<longrightarrow> v \<noteq> [] \<longrightarrow>
        \<not> prefix desc_marker (v @ desc_marker @ ?d2 @ [])"
      by (rule no_D_no_marker) (simp add: title_marker_def lit_def NL_def)
  qed (simp_all add: lf)
  then show "description_of (title_marker @ ?t2 @ NL # desc_marker @ ?d2) = ?d2" by simp
qed

lemma map_stories_tricky:
  "map_stories e w (match_all story_pattern text_tricky) =
     ([\<lparr>story_id = digits (clock e (ticks w)) @ random e (draws w),
        title = lit ''Fix Description: label'', description = lit ''label'', published = False,
        jira_key = None\<rparr>,
       \<lparr>story_id = digits (clock e (Suc (ticks w))) @ random e (Suc (draws w)),
        title = lit ''B'', description = lit ''c'', published = False, jira_key = None\<rparr>],
      w\<lparr>ticks := Suc (Suc (ticks w)), draws := Suc (Suc (draws w))\<rparr>)"
  by (simp add: match_all_tricky story_of_match_eq fields_tricky_first fields_tricky_second)

lemma candidates_tricky:
  "candidates e w text_tricky =
     [\<lparr>story_id = digits (clock e (ticks w)) @ random e (draws w),
        title = lit ''Fix Description: label'', description = lit ''label'', published = False,
        jira_key = None\<rparr>,
       \<lparr>story_id = digits (clock e (Suc (ticks w))) @ random e (Suc (draws w)),
        title = lit ''B'', description = lit ''c'', published = False, jira_key = None\<rparr>]"
  by (simp only: candidates_eq map_stories_tricky fst_conv)

lemma text_mixed_shape:
  "text_mixed =
     (title_marker @ lit ''A'' @ NL # desc_marker @ lit ''a'' @ [NL]) @ title_marker @ lit ''Login page'' @
       NL # lit ''As a user I want to log in'' @ NL # title_marker @ lit ''B'' @ NL # desc_marker @ lit ''c''"
  by (simp add: text_mixed_def title_marker_def desc_marker_def lit_def)

lemma match_all_mixed:
  "match_all story_pattern text_mixed =
     [title_marker @ lit ''A'' @ NL # desc_marker @ lit ''a'' @ [NL],
      title_marker @ lit ''B'' @ NL # desc_marker @ lit ''c'']"
proof -
  let ?pairB = "title_marker @ lit ''B'' @ NL # desc_marker @ lit ''c''"
  let ?body = "NL # lit ''As a user I want to log in'' @ [NL]"
  have lf: "line_free (lit ''A'')" "line_free (lit ''a'')" "line_free (lit ''Login page'')"
    "line_free (lit ''B'')" "line_free (lit ''c'')"
    by (simp_all add: line_free_def lit_def is_line_terminator_def)
  have np: "\<not> prefix (NL # desc_marker) (?body @ ?pairB)"
    by (simp add: desc_marker_def lit_def)
  have "match_all story_pattern (title_marker @ lit ''Login page'' @ ?body @ ?pairB) =
      match_all story_pattern (?body @ ?pairB)"
    by (rule match_all_half_line[OF lf(3) _ np]) (simp add: NL_line_terminator)
  also have "\<dots> = match_all story_pattern ?pairB"
    by (rule match_all_skip) (simp add: lit_def NL_def)
  also have "\<dots> = [?pairB]" by (rule match_all_story_end[OF lf(4,5)])
  finally have "match_all story_pattern (title_marker @ lit ''Login page'' @ ?body @ ?pairB) = [?pairB]" .
  then show ?thesis
    by (simp add: text_mixed_shape match_all_story_nl[OF lf(1,2)])
qed

lemma fields_mixed_first:
  "title_of (title_marker @ lit ''A'' @ NL # desc_marker @ lit ''a'' @ [NL]) = lit ''A''"
  "description_of (title_marker @ lit ''A'' @ NL # desc_marker @ lit ''a'' @ [NL]) = lit ''a''"
proof -
  have lf: "line_free (lit ''A'')" "line_free (lit ''a'')"
    by (simp_all add: line_free_def lit_def is_line_terminator_def)
  show "title_of (title_marker @ lit ''A'' @ NL # desc_marker @ lit ''a'' @ [NL]) = lit ''A''"
    by (rule title_of_line[OF lf(1)])
  have "description_of ((title_marker @ lit ''A'' @ [NL]) @ desc_marker @ lit ''a'' @ [NL]) = lit ''a''"
  proof (rule description_of_first)
    show "\<forall>v. suffix v (title_marker @ lit ''A'' @ [NL]) \<longrightarrow> v \<noteq> [] \<longrightarrow>
        \<not> prefix desc_marker (v @ desc_marker @ lit ''a'' @ [NL])"
      by (rule no_D_no_marker) (simp add: title_marker_def lit_def NL_def)
  qed (simp_all add: lf)
  then show "description_of (title_marker @ lit ''A'' @ NL # desc_marker @ lit ''a'' @ [NL]) = lit ''a''"
    by simp
qed

lemma cand_mixed:
  "map (\<lambda>s. (title s, description s)) (candidates e w text_mixed) =
     [(lit ''A'', lit ''a''), (lit ''B'', lit ''c'')]"
proof -
  have "map (\<lambda>s. (title s, description s, published s, jira_key s)) (candidates e w text_mixed) =
      [(lit ''A'', lit ''a'', False, None), (lit ''B'', lit ''c'', False, None)]"
    by (simp only: candidates_eq map_stories_fields match_all_mixed list.map
        fields_mixed_first fields_tricky_second)
  then show ?thesis by (auto simp: map_eq_Cons_conv)
qed

text \<open>
  Without an assumption on the random number generator the ids of one run can coincide:
  here both candidates are created in the same millisecond with the same draw.
\<close>

lemma repeated_draw_repeats_id:
  "map story_id (candidates env_stuck world0 text_tricky) = [lit ''70.5'', lit ''70.5'']"
  by (simp add: candidates_tricky env_stuck_def digits.simps lit_def)

lemma env_same_ms_draws:
  "inj (random env_same_ms)" "\<forall>k. fraction_string (random env_same_ms k)"
proof -
  show "inj (random env_same_ms)"
  proof (rule injI)
    fix x y assume "random env_same_ms x = random env_same_ms y"
    then have "digits x = digits y" by (simp add: env_same_ms_def)
    then show "x = y" by (rule digits_inj)
  qed
  show "\<forall>k. fraction_string (random env_same_ms k)"
    by (simp add: env_same_ms_def fraction_string_def is_digit_def lit_def)
qed

section \<open>Extraction of story candidates\<close>

text \<open>
  Claim C10. The description of every candidate has no line terminator in it, and it is
  the text that follows an occurrence of \<open>Description: \<close> in the input up to the first
  following newline or the end of the input: a description that spans several lines is
  cut to its first line.
\<close>

theorem description_is_first_line:
  "\<forall>c \<in> set (candidates e w text). line_free (description c) \<and>
    (\<exists>pre rest. text = pre @ desc_marker @ rest \<and> description c = takeWhile (\<lambda>x. x \<noteq> NL) rest)"
proof (intro ballI)
  fix c assume c: "c \<in> set (candidates e w text)"
  from c obtain mt where mt: "mt \<in> set (match_all story_pattern text)"
    and dc: "description c = description_of mt"
    using map_stories_mem by (fastforce simp: candidates_eq)
  from match_all_mem[OF mt] obtain a rest cs where tx: "text = a @ mt @ rest"
    and mm: "matcher story_pattern (mt @ rest) [] ret = Some (rest, cs)" by blast
  from description_of_match[OF mm] obtain pre d post where
    m: "mt = pre @ desc_marker @ d @ post" and dd: "description_of mt = d" and lf: "line_free d"
    and post: "(post = [] \<and> rest = []) \<or> (\<exists>r. post = NL # r)" by blast
  from post have "post @ rest = [] \<or> (\<exists>r. post @ rest = NL # r)" by auto
  from takeWhile_newline[OF lf this] have "takeWhile (\<lambda>x. x \<noteq> NL) (d @ post @ rest) = d" .
  moreover from tx m have "text = (a @ pre) @ desc_marker @ (d @ post @ rest)" by simp
  ultimately show "line_free (description c) \<and>
    (\<exists>pre rest. text = pre @ desc_marker @ rest \<and> description c = takeWhile (\<lambda>x. x \<noteq> NL) rest)"
    using dc dd lf by metis
qed

theorem description_is_first_line_witness:
  "candidates env_up world0 text_multiline =
     [\<lparr>story_id = lit ''00'', title = lit ''A'', description = lit ''line1'', published = False,
       jira_key = None\<rparr>]
   \<and> line_free (lit ''line1'')
   \<and> (\<exists>pre rest. text_multiline = pre @ desc_marker @ rest
        \<and> lit ''line1'' = takeWhile (\<lambda>x. x \<noteq> NL) rest)"
proof -
  have c: "candidates env_up world0 text_multiline =
     [\<lparr>story_id = lit ''00'', title = lit ''A'', description = lit ''line1'', published = False,
       jira_key = None\<rparr>]"
    by (rule cand_multiline)
  from description_is_first_line[of env_up world0 text_multiline] c show ?thesis
    by simp
qed

text \<open>
  Claim C1, as stated, fails: a text that begins with a \<open>Story Title:\<close> line followed by
  a line that is not a description yields no candidate at all.
\<close>

theorem half_pair_dropped:
  "prefix title_marker text_half_pair \<and> candidates env_up world0 text_half_pair = []"
  by (simp add: candidates_eq match_all_no_desc[OF half_pair_no_desc])
     (simp add: text_half_pair_def title_marker_def lit_def)

text \<open>
  Claim C1, amended. Let a text contain a \<open>Story Title: \<close> marker whose line is not
  directly followed by a line starting with \<open>Description: \<close>: the text is
  \<open>pre @ title_marker @ t @ rest\<close>, where \<open>t\<close> has no line terminator and \<open>rest\<close> is empty or
  begins with a line terminator, but not with a newline and \<open>Description: \<close>. Then no
  match of the story pattern starts at that marker, and the candidates of the text are one
  per match, in order: the marker yields no candidate, it is dropped and not defaulted, and
  extraction returns the candidates of the complete pairs. When the text begins with such
  a line, its candidates are exactly those of the text after the line.
\<close>

theorem half_pair_yields_no_candidate:
  assumes "line_free t" and "rest = [] \<or> is_line_terminator (hd rest)"
    and "\<not> prefix (NL # desc_marker) rest"
  shows "length pre \<notin> set (map fst (match_offsets story_pattern 0 (pre @ title_marker @ t @ rest)))
    \<and> candidates e w (pre @ title_marker @ t @ rest) =
        fst (map_stories e w
          (map snd (match_offsets story_pattern 0 (pre @ title_marker @ t @ rest))))
    \<and> candidates e w (title_marker @ t @ rest) = candidates e w rest"
proof (intro conjI)
  show "length pre \<notin> set (map fst (match_offsets story_pattern 0 (pre @ title_marker @ t @ rest)))"
  proof
    assume "length pre \<in> set (map fst (match_offsets story_pattern 0 (pre @ title_marker @ t @ rest)))"
    then obtain m where
      "(length pre, m) \<in> set (match_offsets story_pattern 0 (pre @ title_marker @ t @ rest))"
      by auto
    from match_offsets_mem[OF this] obtain pre' rest' c where
      s: "pre @ title_marker @ t @ rest = pre' @ m @ rest'" and l: "length pre = length pre'"
      and mm: "matcher story_pattern (m @ rest') [] ret = Some (rest', c)" by auto
    from s l have "m @ rest' = title_marker @ t @ rest" by simp
    with mm half_line_no_match[OF assms, of "title_marker @ t"] show False by simp
  qed
next
  show "candidates e w (pre @ title_marker @ t @ rest) =
        fst (map_stories e w
          (map snd (match_offsets story_pattern 0 (pre @ title_marker @ t @ rest))))"
    by (simp add: candidates_eq match_offsets_snd)
next
  show "candidates e w (title_marker @ t @ rest) = candidates e w rest"
    by (simp add: candidates_eq match_all_half_line[OF assms])
qed

theorem half_pair_yields_no_candidate_witness:
  "line_free (lit ''Login page'')
   \<and> is_line_terminator (hd (NL # lit ''As a user I want to log in'' @ [NL] @
        lit ''Story Title: B'' @ [NL] @ lit ''Description: c''))
   \<and> \<not> prefix (NL # desc_marker) (NL # lit ''As a user I want to log in'' @ [NL] @
        lit ''Story Title: B'' @ [NL] @ lit ''Description: c'')
   \<and> text_mixed = (lit ''Story Title: A'' @ [NL] @ lit ''Description: a'' @ [NL]) @ title_marker @
        lit ''Login page'' @ NL # lit ''As a user I want to log in'' @ [NL] @
        lit ''Story Title: B'' @ [NL] @ lit ''Description: c''
   \<and> 30 \<notin> set (map fst (match_offsets story_pattern 0 text_mixed))
   \<and> map (\<lambda>s. (title s, description s)) (candidates env_up world0 text_mixed) =
       [(lit ''A'', lit ''a''), (lit ''B'', lit ''c'')]
   \<and> candidates env_up world0 (title_marker @ lit ''Login page'' @
        NL # lit ''As a user I want to log in'' @ [NL] @
        lit ''Story Title: B'' @ [NL] @ lit ''Description: c'') =
      candidates env_up world0 (NL # lit ''As a user I want to log in'' @ [NL] @
        lit ''Story Title: B'' @ [NL] @ lit ''Description: c'')"
proof -
  let ?pre = "lit ''Story Title: A'' @ [NL] @ lit ''Description: a'' @ [NL]"
  let ?rest = "NL # lit ''As a user I want to log in'' @ [NL] @
        lit ''Story Title: B'' @ [NL] @ lit ''Description: c''"
  have h1: "line_free (lit ''Login page'')"
    by (simp add: line_free_def lit_def is_line_terminator_def)
  have h2: "is_line_terminator (hd ?rest)"
    by (simp add: NL_line_terminator)
  have h2': "?rest = [] \<or> is_line_terminator (hd ?rest)"
    using h2 by (rule disjI2)
  have h3: "\<not> prefix (NL # desc_marker) ?rest"
    by (simp add: desc_marker_def lit_def)
  have sh: "text_mixed = ?pre @ title_marker @ lit ''Login page'' @ ?rest"
    by (simp add: text_mixed_def title_marker_def lit_def)
  have len: "length ?pre = 30" by (simp add: lit_def)
  note inst = half_pair_yields_no_candidate[OF h1 h2' h3, where pre = ?pre and e = env_up
      and w = world0]
  have a: "30 \<notin> set (map fst (match_offsets story_pattern 0 text_mixed))"
    using inst[THEN conjunct1] unfolding sh[symmetric] len .
  show ?thesis
    by (intro conjI) (rule h1 h2 h3 sh a cand_mixed inst[THEN conjunct2, THEN conjunct2])+
qed

text \<open>
  Claim C3, as stated, fails: a second run on the same text, started where the first one
  ended, yields a candidate with a different id.
\<close>

theorem extraction_ids_differ:
  "fst (extract_stories env_up world0 text_multiline) \<noteq>
   fst (extract_stories env_up (snd (extract_stories env_up world0 text_multiline)) text_multiline)"
  by (simp add: extract_multiline env_up_def world0_def digits.simps)

text \<open>
  Claim C3, amended. The number of candidates and the title, description, published flag
  and Jira key of each are a function of the input text alone: they are the same for any
  two runs, whatever the clock and the random number generator give. A run sends no
  request, logs nothing and shows no alert; it only reads the clock and the random number
  generator. Each candidate receives a newly generated id: the digits of a clock reading
  of its own followed by a draw of its own, and the run uses up these readings and draws.
  The ids of a run are pairwise distinct exactly when its pairs of reading and draw are
  (each draw being the string conversion of a number between 0 and 1); and when the random
  number generator never repeats a value, the ids of a run and of any later run are all
  distinct. The ids are not a function of the text.
\<close>

theorem extraction_fields_deterministic:
  "map (\<lambda>s. (title s, description s, published s, jira_key s)) (candidates e w text) =
   map (\<lambda>s. (title s, description s, published s, jira_key s)) (candidates e' w' text)
   \<and> sent (snd (extract_stories e w text)) = sent w
   \<and> console (snd (extract_stories e w text)) = console w
   \<and> alerts (snd (extract_stories e w text)) = alerts w
   \<and> map story_id (candidates e w text) =
       map (\<lambda>k. digits (clock e (ticks w + k)) @ random e (draws w + k))
         [0..<length (candidates e w text)]
   \<and> ticks (snd (extract_stories e w text)) = ticks w + length (candidates e w text)
   \<and> draws (snd (extract_stories e w text)) = draws w + length (candidates e w text)
   \<and> ((\<forall>k < length (candidates e w text). fraction_string (random e (draws w + k))) \<longrightarrow>
        (distinct (map story_id (candidates e w text)) \<longleftrightarrow>
         distinct (map (\<lambda>k. (clock e (ticks w + k), random e (draws w + k)))
           [0..<length (candidates e w text)])))
   \<and> (inj (random e) \<and> (\<forall>k. fraction_string (random e k))
        \<and> draws w + length (candidates e w text) \<le> draws v \<longrightarrow>
        distinct (map story_id (candidates e w text @ candidates e v text')))"
proof -
  have f: "map (\<lambda>s. (title s, description s, published s, jira_key s)) (candidates e w text) =
      map (\<lambda>s. (title s, description s, published s, jira_key s)) (candidates e' w' text)"
    by (simp add: candidates_eq map_stories_fields)
  have t: "ticks (snd (extract_stories e w text)) = ticks w + length (candidates e w text)"
    "draws (snd (extract_stories e w text)) = draws w + length (candidates e w text)"
    by (simp_all add: extract_stories_reads)
  have d: "distinct (map story_id (candidates e w text)) \<longleftrightarrow>
         distinct (map (\<lambda>k. (clock e (ticks w + k), random e (draws w + k)))
           [0..<length (candidates e w text)])"
    if b: "\<forall>k < length (candidates e w text). fraction_string (random e (draws w + k))"
  proof -
    from b have "\<forall>k \<in> set [0..<length (candidates e w text)].
        fraction_string (random e (draws w + k))" by simp
    from ids_distinct_iff[OF this] show ?thesis by (subst candidates_ids)
  qed
  have x: "distinct (map story_id (candidates e w text @ candidates e v text'))"
    if "inj (random e)" and "\<forall>k. fraction_string (random e k)"
      and "draws w + length (candidates e w text) \<le> draws v"
  proof -
    have "distinct
        (map (\<lambda>k. digits (clock e (ticks w + k)) @ random e (draws w + k))
           [0..<length (candidates e w text)] @
         map (\<lambda>k. digits (clock e (ticks v + k)) @ random e (draws v + k))
           [0..<length (candidates e v text')])"
      by (rule two_runs_ids_distinct[OF that])
    then show ?thesis
      by (simp only: map_append candidates_ids[symmetric])
  qed
  note unchanged = extract_stories_world[of e w]
  show ?thesis
    apply (intro conjI impI)
            apply (rule f)
           apply (rule unchanged[THEN conjunct1])
          apply (rule unchanged[THEN conjunct2, THEN conjunct1])
         apply (rule unchanged[THEN conjunct2, THEN conjunct2])
        apply (rule candidates_ids)
       apply (rule t(1))
      apply (rule t(2))
     apply (erule d)
    apply (elim conjE, erule (2) x)
    done
qed


theorem extraction_fields_deterministic_witness:
  "inj (random env_same_ms) \<and> (\<forall>k. fraction_string (random env_same_ms k))
   \<and> draws world0 + length (candidates env_same_ms world0 text_tricky)
        \<le> draws (snd (extract_stories env_same_ms world0 text_tricky))
   \<and> map story_id (candidates env_same_ms world0 text_tricky) = [lit ''70.0'', lit ''70.1'']
   \<and> map story_id (candidates env_same_ms (snd (extract_stories env_same_ms world0 text_tricky))
        text_tricky) = [lit ''70.2'', lit ''70.3'']
   \<and> distinct (map story_id (candidates env_same_ms world0 text_tricky))
   \<and> distinct (map story_id (candidates env_same_ms world0 text_tricky @
        candidates env_same_ms (snd (extract_stories env_same_ms world0 text_tricky)) text_tricky))
   \<and> ticks (snd (extract_stories env_same_ms world0 text_tricky)) = 2
   \<and> draws (snd (extract_stories env_same_ms world0 text_tricky)) = 2
   \<and> map (\<lambda>s. (title s, description s, published s, jira_key s))
        (candidates env_same_ms world0 text_tricky) =
      map (\<lambda>s. (title s, description s, published s, jira_key s))
        (candidates env_same_ms (snd (extract_stories env_same_ms world0 text_tricky)) text_tricky)"
proof -
  let ?w2 = "snd (extract_stories env_same_ms world0 text_tricky)"
  note h1 = env_same_ms_draws(1) and h2 = env_same_ms_draws(2)
  have n: "length (candidates env_same_ms world0 text_tricky) = 2"
    by (simp add: candidates_tricky)
  have w0: "ticks world0 = 0" "draws world0 = 0" by (simp_all add: world0_def)
  have u: "[0..<2] = [0, Suc 0]" by (simp add: upt_conv_Cons)
  have w2: "?w2 = world0\<lparr>ticks := 2, draws := 2\<rparr>"
    by (simp add: extract_stories_reads n w0)
  have h3: "draws world0 + length (candidates env_same_ms world0 text_tricky) \<le> draws ?w2"
    by (simp add: w2 n w0)
  have ids1: "map story_id (candidates env_same_ms world0 text_tricky) = [lit ''70.0'', lit ''70.1'']"
    by (simp add: candidates_tricky env_same_ms_def w0 digits.simps lit_def)
  have ids2: "map story_id (candidates env_same_ms ?w2 text_tricky) = [lit ''70.2'', lit ''70.3'']"
    unfolding w2 by (simp add: candidates_tricky env_same_ms_def digits.simps lit_def)
  note inst = extraction_fields_deterministic[where e = env_same_ms and w = world0
      and ?text = text_tricky and e' = env_same_ms and w' = ?w2 and v = ?w2
      and ?text' = text_tricky]
  note c = inst[THEN conjunct2, THEN conjunct2, THEN conjunct2, THEN conjunct2]
  have p: "\<forall>k < length (candidates env_same_ms world0 text_tricky).
      fraction_string (random env_same_ms (draws world0 + k))"
    using h2 by simp
  have pairs: "distinct (map (\<lambda>k. (clock env_same_ms (ticks world0 + k),
      random env_same_ms (draws world0 + k))) [0..<length (candidates env_same_ms world0 text_tricky)])"
    unfolding n w0 u by (simp add: env_same_ms_def digits.simps lit_def)
  have di: "distinct (map story_id (candidates env_same_ms world0 text_tricky))"
    using c[THEN conjunct2, THEN conjunct2, THEN conjunct2, THEN conjunct1, THEN mp, OF p] pairs
    by (rule iffD2)
  have q: "inj (random env_same_ms) \<and> (\<forall>k. fraction_string (random env_same_ms k))
      \<and> draws world0 + length (candidates env_same_ms world0 text_tricky) \<le> draws ?w2"
    using h1 h2 h3 by (intro conjI)
  have dx: "distinct (map story_id (candidates env_same_ms world0 text_tricky @
        candidates env_same_ms ?w2 text_tricky))"
    by (rule c[THEN conjunct2, THEN conjunct2, THEN conjunct2, THEN conjunct2, THEN mp, OF q])
  have t: "ticks ?w2 = 2" "draws ?w2 = 2"
    using c[THEN conjunct2, THEN conjunct1] c[THEN conjunct2, THEN conjunct2, THEN conjunct1]
    by (simp_all add: n w0)
  show ?thesis
    by (intro conjI) (rule h1 h2 h3 ids1 ids2 di dx t inst[THEN conjunct1])+
qed

text \<open>
  Claim C2 at an input of two well-formed pairs whose first title contains the text
  \<open>Description: \<close>. The story pattern captures the description "real text" for the first
  pair, but the description of the first candidate is "label", read from the title. (The
  rest of the claim holds: see \<open>no_marker_no_candidates\<close> and \<open>two_pairs_candidates\<close>.)
\<close>

theorem description_read_from_title:
  "matcher story_pattern text_tricky [] (\<lambda>s' c'. Some (s', c')) =
     Some (lit ''Story Title: B'' @ [NL] @ lit ''Description: c'',
           [(2, lit ''real text''), (1, lit ''Fix Description: label'')])
   \<and> map title (candidates env_up world0 text_tricky) = [lit ''Fix Description: label'', lit ''B'']
   \<and> map description (candidates env_up world0 text_tricky) = [lit ''label'', lit ''c'']"
proof -
  let ?t1 = "lit ''Fix Description: label''" and ?d1 = "lit ''real text''"
  let ?m2 = "title_marker @ lit ''B'' @ NL # desc_marker @ lit ''c''"
  have lf: "line_free ?t1" "line_free ?d1"
    by (simp_all add: line_free_def lit_def is_line_terminator_def)
  have rest: "lit ''Story Title: B'' @ [NL] @ lit ''Description: c'' = ?m2"
    by (simp add: title_marker_def desc_marker_def lit_def)
  have first: "matcher story_pattern text_tricky [] ret = Some (?m2, [(2, ?d1), (1, ?t1)])"
    unfolding text_tricky_shape using lf by (subst story_match_iff) blast
  have "map (\<lambda>s. (title s, description s, published s, jira_key s))
      (candidates env_up world0 text_tricky) =
      [(?t1, lit ''label'', False, None), (lit ''B'', lit ''c'', False, None)]"
    by (simp only: candidates_eq map_stories_fields match_all_tricky list.map
        fields_tricky_first fields_tricky_second)
  then have "map title (candidates env_up world0 text_tricky) = [?t1, lit ''B'']"
    and "map description (candidates env_up world0 text_tricky) = [lit ''label'', lit ''c'']"
    by (auto simp: map_eq_Cons_conv)
  with first rest show ?thesis by simp
qed

section \<open>Storing the candidates\<close>

lemma api_request_sent: "sent (snd (api_request e w req)) = sent w @ [req]"
  by (simp add: api_request_def console_error_def Let_def split: response.splits)

lemma store_stories_sent:
  "sent (store_stories e p w ss) = sent w @ map (store_request p) ss"
proof (induction ss arbitrary: w)
  case Nil
  show ?case by simp
next
  case (Cons s ss)
  obtain r w1 where a: "api_request e w (Post (lit ''/stories'') (StoryBody p s)) = (r, w1)"
    by (cases "api_request e w (Post (lit ''/stories'') (StoryBody p s))")
  with api_request_sent[of e w "Post (lit ''/stories'') (StoryBody p s)"]
  have "sent w1 = sent w @ [store_request p s]" by (simp add: store_request_def)
  then show ?case
    by (simp add: a Cons.IH console_error_def split: response.splits)
qed

text \<open>
  Claim C4. In a chat turn whose \<open>/chat\<close> request is answered with a text, the requests
  sent are the \<open>/chat\<close> request followed by one \<open>POST /stories\<close> for every candidate
  extracted from that text, in order (the turn has read the clock four times before it
  builds the candidates). This holds whatever the backend answers to any of the store
  requests, and the candidates themselves do not depend on the backend: a rejected store
  request does not keep the later candidates from being posted.
\<close>

theorem every_candidate_is_posted:
  assumes "trim (input st) \<noteq> []" and "p \<noteq> []"
    and "backend e (sent w) (chat_request (input st) p) = Resolved (ChatData text)"
  shows "sent (snd (handleSend e (Some p) (st, w))) =
           sent w @ chat_request (input st) p #
             map (store_request p) (candidates e (w\<lparr>ticks := ticks w + 4\<rparr>) text)
    \<and> candidates (e\<lparr>backend := b\<rparr>) (w\<lparr>ticks := ticks w + 4\<rparr>) text =
        candidates e (w\<lparr>ticks := ticks w + 4\<rparr>) text"
proof
  let ?w3 = "w\<lparr>sent := sent w @ [chat_request (input st) p],
                ticks := Suc (Suc (Suc (Suc (ticks w))))\<rparr>"
  have c: "candidates e ?w3 text = candidates e (w\<lparr>ticks := ticks w + 4\<rparr>) text"
    by (rule candidates_reads) simp_all
  obtain x y where xy: "extract_stories e ?w3 text = (x, y)" by (cases "extract_stories e ?w3 text")
  from extract_candidates[OF xy] c
  have x: "(case x of None \<Rightarrow> [] | Some ss \<Rightarrow> ss) = candidates e (w\<lparr>ticks := ticks w + 4\<rparr>) text"
    and y: "sent y = sent w @ [chat_request (input st) p]" by simp_all
  have hs: "snd (handleSend e (Some p) (st, w)) =
      (case x of None \<Rightarrow> y | Some ss \<Rightarrow> if length ss > 0 then store_stories e p y ss else y)"
    using assms xy
    by (simp add: handleSend_def date_now_def api_request_def chat_request_def Let_def
        split: option.splits)
  show "sent (snd (handleSend e (Some p) (st, w))) =
           sent w @ chat_request (input st) p #
             map (store_request p) (candidates e (w\<lparr>ticks := ticks w + 4\<rparr>) text)"
    unfolding hs x[symmetric] using y
    by (cases x) (simp_all add: store_stories_sent)
next
  show "candidates (e\<lparr>backend := b\<rparr>) (w\<lparr>ticks := ticks w + 4\<rparr>) text =
        candidates e (w\<lparr>ticks := ticks w + 4\<rparr>) text"
    by (rule candidates_reads) simp_all
qed

theorem every_candidate_is_posted_witness:
  "trim (input chat_hi) \<noteq> [] \<and> lit ''PO'' \<noteq> []
   \<and> backend env_flaky (sent world0) (chat_request (input chat_hi) (lit ''PO'')) =
       Resolved (ChatData text_tricky)
   \<and> backend env_flaky [chat_request (lit ''hi'') (lit ''PO'')]
        (store_request (lit ''PO'')
          \<lparr>story_id = lit ''40'', title = lit ''Fix Description: label'', description = lit ''label'',
            published = False, jira_key = None\<rparr>) = Rejected
   \<and> candidates env_flaky (world0\<lparr>ticks := ticks world0 + 4\<rparr>) text_tricky =
       [\<lparr>story_id = lit ''40'', title = lit ''Fix Description: label'', description = lit ''label'',
          published = False, jira_key = None\<rparr>,
        \<lparr>story_id = lit ''51'', title = lit ''B'', description = lit ''c'', published = False,
          jira_key = None\<rparr>]
   \<and> sent (snd (handleSend env_flaky (Some (lit ''PO'')) (chat_hi, world0))) =
       [chat_request (lit ''hi'') (lit ''PO''),
        store_request (lit ''PO'')
          \<lparr>story_id = lit ''40'', title = lit ''Fix Description: label'', description = lit ''label'',
            published = False, jira_key = None\<rparr>,
        store_request (lit ''PO'')
          \<lparr>story_id = lit ''51'', title = lit ''B'', description = lit ''c'', published = False,
            jira_key = None\<rparr>]"
proof -
  have h1: "trim (input chat_hi) \<noteq> []"
    by (simp add: chat_hi_def trim_def lit_def is_white_space_def is_line_terminator_def)
  have h2: "lit ''PO'' \<noteq> []"
    by (simp add: lit_def)
  have h3: "backend env_flaky (sent world0) (chat_request (input chat_hi) (lit ''PO'')) =
      Resolved (ChatData text_tricky)"
    by (simp add: env_flaky_def chat_request_def)
  have h4: "backend env_flaky [chat_request (lit ''hi'') (lit ''PO'')]
        (store_request (lit ''PO'')
          \<lparr>story_id = lit ''40'', title = lit ''Fix Description: label'', description = lit ''label'',
            published = False, jira_key = None\<rparr>) = Rejected"
    by (simp add: env_flaky_def store_request_def)
  have ids: "digits 4 @ digits 0 = lit ''40''" "digits 5 @ digits (Suc 0) = lit ''51''"
    by (simp_all add: digits.simps lit_def)
  have g: "candidates env_flaky (world0\<lparr>ticks := ticks world0 + 4\<rparr>) text_tricky =
       [\<lparr>story_id = lit ''40'', title = lit ''Fix Description: label'', description = lit ''label'',
          published = False, jira_key = None\<rparr>,
        \<lparr>story_id = lit ''51'', title = lit ''B'', description = lit ''c'', published = False,
          jira_key = None\<rparr>]"
    by (simp add: candidates_tricky env_flaky_def world0_def ids)
  have i: "input chat_hi = lit ''hi''" "sent world0 = []"
    by (simp_all add: chat_hi_def world0_def)
  have s: "sent (snd (handleSend env_flaky (Some (lit ''PO'')) (chat_hi, world0))) =
       [chat_request (lit ''hi'') (lit ''PO''),
        store_request (lit ''PO'')
          \<lparr>story_id = lit ''40'', title = lit ''Fix Description: label'', description = lit ''label'',
            published = False, jira_key = None\<rparr>,
        store_request (lit ''PO'')
          \<lparr>story_id = lit ''51'', title = lit ''B'', description = lit ''c'', published = False,
            jira_key = None\<rparr>]"
    using every_candidate_is_posted[OF h1 h2 h3, THEN conjunct1] by (simp add: g i)
  show ?thesis
    by (intro conjI) (rule h1 h2 h3 h4 g s)+
qed

section \<open>No project selected\<close>

text \<open>
  Claim C5. With no project selected (\<open>null\<close> or the empty string), a chat turn leaves the
  chat and the world as they are, and a file upload in the chat, a BRD upload and an image
  upload leave their component state as it is and send no request at all.
\<close>

theorem no_project_no_request:
  assumes "falsy selectedProject"
  shows "handleSend e selectedProject (cs, w) = (cs, w)
    \<and> fst (handleFileUpload e blob_url selectedProject (cs, w) f) = cs
    \<and> sent (snd (handleFileUpload e blob_url selectedProject (cs, w) f)) = sent w
    \<and> fst (brd_onDrop e selectedProject (bs, w) fs) = bs
    \<and> sent (snd (brd_onDrop e selectedProject (bs, w) fs)) = sent w
    \<and> fst (images_onDrop e selectedProject (im, w) fs) = im
    \<and> sent (snd (images_onDrop e selectedProject (im, w) fs)) = sent w"
  using assms
  by (cases selectedProject)
     (simp_all add: falsy_def handleSend_def handleFileUpload_def brd_onDrop_def images_onDrop_def
       alert_def)

theorem no_project_no_request_witness:
  "falsy None \<and> falsy (Some [])
   \<and> handleSend env_up None (chat_hi, world0) = (chat_hi, world0)
   \<and> handleSend env_up (Some []) (chat_hi, world0) = (chat_hi, world0)
   \<and> sent (snd (handleFileUpload env_up (\<lambda>f. []) None (chat_hi, world0) file0)) = []
   \<and> sent (snd (handleFileUpload env_up (\<lambda>f. []) (Some []) (chat_hi, world0) file0)) = []
   \<and> sent (snd (brd_onDrop env_up None (\<lparr>uploading = False, uploadProgress = 0\<rparr>, world0) [file0])) = []
   \<and> sent (snd (images_onDrop env_up (Some [])
        (\<lparr>images_isLoading = False, uploadedImages = []\<rparr>, world0) [file0])) = []"
proof -
  have h1: "falsy None" and h2: "falsy (Some [])"
    by (simp_all add: falsy_def)
  have s: "sent world0 = []" by (simp add: world0_def)
  from no_project_no_request[OF h1, where e = env_up and cs = chat_hi and w = world0
      and blob_url = "\<lambda>f. []" and f = file0
      and bs = "\<lparr>uploading = False, uploadProgress = 0\<rparr>" and fs = "[file0]"
      and im = "\<lparr>images_isLoading = False, uploadedImages = []\<rparr>"]
    no_project_no_request[OF h2, where e = env_up and cs = chat_hi and w = world0
      and blob_url = "\<lambda>f. []" and f = file0
      and bs = "\<lparr>uploading = False, uploadProgress = 0\<rparr>" and fs = "[file0]"
      and im = "\<lparr>images_isLoading = False, uploadedImages = []\<rparr>"]
    h1 h2 s
  show ?thesis by simp
qed

section \<open>Publishing and editing stories\<close>

text \<open>
  Claim C8, as stated, fails: when the publish request is fulfilled by an answer that has
  no \<open>jira_key\<close>, the row becomes published without a key, and success is reported.
\<close>

theorem publish_without_key:
  "key_iff_published draft0
   \<and> backend env_up (sent world0) (publish_request (lit ''PO'') draft0) = Resolved OtherData
   \<and> stories (fst (handlePublish env_up (Some (lit ''PO'')) (view0, world0) draft0)) =
       [draft0\<lparr>published := True\<rparr>]
   \<and> message (fst (handlePublish env_up (Some (lit ''PO'')) (view0, world0) draft0)) =
       Some (Success, lit ''Story successfully published to Jira as undefined'')
   \<and> \<not> key_iff_published (draft0\<lparr>published := True\<rparr>)"
  by (simp add: handlePublish_def api_request_def env_up_def view0_def draft0_def
      key_iff_published_def data_jira_key_def undefined_str_def Let_def lit_def)

text \<open>
  Claim C8, amended. A publish call with no project selected sends nothing, changes no row
  and reports the missing project. With a project selected it sends exactly one publish
  request. When the request is fulfilled, every row of that story id becomes published and
  takes the \<open>jira_key\<close> of the answer in the same update (no key when the answer has
  none), and the success is reported; when it is rejected, the rows are unchanged (a draft
  stays a draft) and the failure is reported. So a row becomes published only on success,
  and for every call: if no unpublished row had a key before, none has after; and if every
  row had a key exactly when it was published before, so it has after, provided that the
  request was rejected or its answer carries a key.
\<close>

theorem publish_sets_status_and_key_together:
  "(falsy selectedProject \<longrightarrow>
      stories (fst (handlePublish e selectedProject (st, w) s)) = stories st
      \<and> sent (snd (handlePublish e selectedProject (st, w) s)) = sent w
      \<and> message (fst (handlePublish e selectedProject (st, w) s)) =
          Some (Error, lit ''Please select a project first''))
   \<and> (p \<noteq> [] \<longrightarrow>
      sent (snd (handlePublish e (Some p) (st, w) s)) = sent w @ [publish_request p s]
      \<and> (backend e (sent w) (publish_request p s) = Resolved d \<longrightarrow>
           stories (fst (handlePublish e (Some p) (st, w) s)) =
             map (\<lambda>x. if story_id x = story_id s
                       then x\<lparr>published := True, jira_key := data_jira_key d\<rparr> else x) (stories st)
           \<and> message (fst (handlePublish e (Some p) (st, w) s)) =
               Some (Success, lit ''Story successfully published to Jira as '' @
                       undefined_str (data_jira_key d)))
      \<and> (backend e (sent w) (publish_request p s) = Rejected \<longrightarrow>
           stories (fst (handlePublish e (Some p) (st, w) s)) = stories st
           \<and> message (fst (handlePublish e (Some p) (st, w) s)) =
               Some (Error, lit ''Failed to publish story. Please try again.''))
      \<and> ((\<forall>x \<in> set (stories st). jira_key x \<noteq> None \<longrightarrow> published x) \<longrightarrow>
           (\<forall>x \<in> set (stories (fst (handlePublish e (Some p) (st, w) s))).
              jira_key x \<noteq> None \<longrightarrow> published x))
      \<and> ((\<forall>x \<in> set (stories st). key_iff_published x)
           \<and> (backend e (sent w) (publish_request p s) = Rejected
              \<or> (\<exists>k. backend e (sent w) (publish_request p s) = Resolved (PublishData k))) \<longrightarrow>
           (\<forall>x \<in> set (stories (fst (handlePublish e (Some p) (st, w) s))). key_iff_published x)))"
proof (intro conjI impI)
  assume "falsy selectedProject"
  then show "stories (fst (handlePublish e selectedProject (st, w) s)) = stories st"
    and "sent (snd (handlePublish e selectedProject (st, w) s)) = sent w"
    and "message (fst (handlePublish e selectedProject (st, w) s)) =
          Some (Error, lit ''Please select a project first'')"
    by (cases selectedProject; simp add: falsy_def handlePublish_def)+
next
  assume "p \<noteq> []"
  then show "sent (snd (handlePublish e (Some p) (st, w) s)) = sent w @ [publish_request p s]"
    by (simp add: handlePublish_def api_request_def publish_request_def Let_def console_error_def
        split: response.splits)
next
  assume "p \<noteq> []" and "backend e (sent w) (publish_request p s) = Resolved d"
  then show "stories (fst (handlePublish e (Some p) (st, w) s)) =
      map (\<lambda>x. if story_id x = story_id s
                then x\<lparr>published := True, jira_key := data_jira_key d\<rparr> else x) (stories st)"
    and "message (fst (handlePublish e (Some p) (st, w) s)) =
      Some (Success, lit ''Story successfully published to Jira as '' @
              undefined_str (data_jira_key d))"
    by (simp_all add: handlePublish_def api_request_def publish_request_def Let_def)
next
  assume "p \<noteq> []" and "backend e (sent w) (publish_request p s) = Rejected"
  then show "stories (fst (handlePublish e (Some p) (st, w) s)) = stories st"
    and "message (fst (handlePublish e (Some p) (st, w) s)) =
      Some (Error, lit ''Failed to publish story. Please try again.'')"
    by (simp_all add: handlePublish_def api_request_def publish_request_def Let_def)
next
  assume "p \<noteq> []" and "\<forall>x \<in> set (stories st). jira_key x \<noteq> None \<longrightarrow> published x"
  then show "\<forall>x \<in> set (stories (fst (handlePublish e (Some p) (st, w) s))).
      jira_key x \<noteq> None \<longrightarrow> published x"
    by (auto simp: handlePublish_def api_request_def publish_request_def Let_def
        split: response.splits)
next
  assume "p \<noteq> []"
    and "(\<forall>x \<in> set (stories st). key_iff_published x)
      \<and> (backend e (sent w) (publish_request p s) = Rejected
         \<or> (\<exists>k. backend e (sent w) (publish_request p s) = Resolved (PublishData k)))"
  then show "\<forall>x \<in> set (stories (fst (handlePublish e (Some p) (st, w) s))). key_iff_published x"
    by (auto simp: handlePublish_def api_request_def publish_request_def Let_def
        data_jira_key_def key_iff_published_def)
qed

theorem publish_sets_status_and_key_together_witness:
  "falsy None
   \<and> stories (fst (handlePublish env_jira None (view0, world0) draft0)) = [draft0]
   \<and> sent (snd (handlePublish env_jira None (view0, world0) draft0)) = []
   \<and> lit ''PO'' \<noteq> []
   \<and> key_iff_published draft0
   \<and> jira_key draft0 = None
   \<and> backend env_jira (sent world0) (publish_request (lit ''PO'') draft0) =
       Resolved (PublishData (lit ''PO-1''))
   \<and> sent (snd (handlePublish env_jira (Some (lit ''PO'')) (view0, world0) draft0)) =
       [publish_request (lit ''PO'') draft0]
   \<and> stories (fst (handlePublish env_jira (Some (lit ''PO'')) (view0, world0) draft0)) =
       [draft0\<lparr>published := True, jira_key := Some (lit ''PO-1'')\<rparr>]
   \<and> message (fst (handlePublish env_jira (Some (lit ''PO'')) (view0, world0) draft0)) =
       Some (Success, lit ''Story successfully published to Jira as PO-1'')
   \<and> key_iff_published (draft0\<lparr>published := True, jira_key := Some (lit ''PO-1'')\<rparr>)
   \<and> published (draft0\<lparr>published := True, jira_key := Some (lit ''PO-1'')\<rparr>)
   \<and> backend env_down (sent world0) (publish_request (lit ''PO'') draft0) = Rejected
   \<and> stories (fst (handlePublish env_down (Some (lit ''PO'')) (view0, world0) draft0)) = [draft0]
   \<and> message (fst (handlePublish env_down (Some (lit ''PO'')) (view0, world0) draft0)) =
       Some (Error, lit ''Failed to publish story. Please try again.'')"
proof -
  have h0: "falsy None" by (simp add: falsy_def)
  have h1: "lit ''PO'' \<noteq> []" by (simp add: lit_def)
  have h2: "backend env_jira (sent world0) (publish_request (lit ''PO'') draft0) =
      Resolved (PublishData (lit ''PO-1''))"
    by (simp add: env_jira_def)
  have h3: "backend env_down (sent world0) (publish_request (lit ''PO'') draft0) = Rejected"
    by (simp add: env_down_def)
  have h4: "\<forall>x \<in> set (stories view0). key_iff_published x"
    by (simp add: view0_def draft0_def key_iff_published_def)
  have h5: "jira_key draft0 = None" by (simp add: draft0_def)
  have s: "sent world0 = []" "stories view0 = [draft0]"
    by (simp_all add: world0_def view0_def)
  have h6: "(\<forall>x \<in> set (stories view0). key_iff_published x)
      \<and> (backend env_jira (sent world0) (publish_request (lit ''PO'') draft0) = Rejected
         \<or> (\<exists>k. backend env_jira (sent world0) (publish_request (lit ''PO'') draft0) =
               Resolved (PublishData k)))"
    using h4 by (simp add: h2)
  have h7: "\<forall>x \<in> set (stories view0). jira_key x \<noteq> None \<longrightarrow> published x"
    by (simp add: s h5)
  have dk: "data_jira_key (PublishData (lit ''PO-1'')) = Some (lit ''PO-1'')"
    by (simp add: data_jira_key_def)
  have ms: "lit ''Story successfully published to Jira as '' @ lit ''PO-1'' =
      lit ''Story successfully published to Jira as PO-1''"
    by (simp add: lit_def)
  note up = publish_sets_status_and_key_together[where selectedProject = None and p = "lit ''PO''"
      and e = env_jira and w = world0 and s = draft0 and d = "PublishData (lit ''PO-1'')"
      and st = view0]
  note down = publish_sets_status_and_key_together[where selectedProject = None
      and p = "lit ''PO''" and e = env_down and w = world0 and s = draft0
      and d = "PublishData (lit ''PO-1'')" and st = view0]
  note none = up[THEN conjunct1, THEN mp, OF h0]
  note some = up[THEN conjunct2, THEN mp, OF h1]
  note ok = some[THEN conjunct2, THEN conjunct1, THEN mp, OF h2]
  note inv1 = some[THEN conjunct2, THEN conjunct2, THEN conjunct2, THEN conjunct1, THEN mp, OF h7]
  note inv2 = some[THEN conjunct2, THEN conjunct2, THEN conjunct2, THEN conjunct2, THEN mp, OF h6]
  note failed = down[THEN conjunct2, THEN mp, OF h1, THEN conjunct2, THEN conjunct2,
      THEN conjunct1, THEN mp, OF h3]
  have a: "stories (fst (handlePublish env_jira None (view0, world0) draft0)) = [draft0]"
    "sent (snd (handlePublish env_jira None (view0, world0) draft0)) = []"
    using none by (simp_all add: s)
  have b: "sent (snd (handlePublish env_jira (Some (lit ''PO'')) (view0, world0) draft0)) =
       [publish_request (lit ''PO'') draft0]"
    using some[THEN conjunct1] by (simp add: s)
  have c: "stories (fst (handlePublish env_jira (Some (lit ''PO'')) (view0, world0) draft0)) =
       [draft0\<lparr>published := True, jira_key := Some (lit ''PO-1'')\<rparr>]"
    using ok[THEN conjunct1] by (simp add: s dk)
  have m: "message (fst (handlePublish env_jira (Some (lit ''PO'')) (view0, world0) draft0)) =
       Some (Success, lit ''Story successfully published to Jira as PO-1'')"
    using ok[THEN conjunct2] by (simp only: dk undefined_str_def option.case ms)
  have k: "key_iff_published draft0"
    using h4 by (simp add: s)
  have k': "key_iff_published (draft0\<lparr>published := True, jira_key := Some (lit ''PO-1'')\<rparr>)"
    using inv2 unfolding c by simp
  have k'': "published (draft0\<lparr>published := True, jira_key := Some (lit ''PO-1'')\<rparr>)"
    using inv1 unfolding c by simp
  have d: "stories (fst (handlePublish env_down (Some (lit ''PO'')) (view0, world0) draft0)) =
       [draft0]"
    using failed[THEN conjunct1] by (simp add: s)
  show ?thesis
    by (intro conjI) (rule h0 a b c m d h1 h2 h3 h5 k k' k'' failed[THEN conjunct2])+
qed

text \<open>
  Claim C7. The edit button of a published story is disabled; the store's \<open>update\<close> of a
  published story fails with \<open>InvalidStateError\<close> and returns no changed story; and when the
  update request is rejected, the rows of the view are unchanged and the failure is
  reported.
\<close>

theorem published_story_not_editable:
  "(published s \<longrightarrow> edit_disabled s)
   \<and> (story_status ss = Published \<longrightarrow> update ss new_title new_description now = Inl InvalidStateError)
   \<and> (backend e (sent w) (update_request selectedProject es) = Rejected \<longrightarrow>
        stories (fst (handleSaveEdit e selectedProject (st, w) es)) = stories st
        \<and> message (fst (handleSaveEdit e selectedProject (st, w) es)) =
            Some (Error, lit ''Failed to update story. Please try again.''))"
  by (simp add: edit_disabled_def update_def handleSaveEdit_def api_request_def update_request_def
      Let_def)

theorem published_story_not_editable_witness:
  "published (draft0\<lparr>published := True, jira_key := Some (lit ''PO-1'')\<rparr>)
   \<and> edit_disabled (draft0\<lparr>published := True, jira_key := Some (lit ''PO-1'')\<rparr>)
   \<and> story_status stored0 = Published
   \<and> update stored0 (Some (lit ''B'')) None 3 = Inl InvalidStateError
   \<and> backend env_down (sent world0)
        (update_request (Some (lit ''PO''))
          (draft0\<lparr>title := lit ''B'', published := True, jira_key := Some (lit ''PO-1'')\<rparr>)) = Rejected
   \<and> stories (fst (handleSaveEdit env_down (Some (lit ''PO''))
        (view0\<lparr>stories := [draft0\<lparr>published := True, jira_key := Some (lit ''PO-1'')\<rparr>]\<rparr>, world0)
        (draft0\<lparr>title := lit ''B'', published := True, jira_key := Some (lit ''PO-1'')\<rparr>))) =
       [draft0\<lparr>published := True, jira_key := Some (lit ''PO-1'')\<rparr>]"
proof -
  have h1: "published (draft0\<lparr>published := True, jira_key := Some (lit ''PO-1'')\<rparr>)" by simp
  have h2: "story_status stored0 = Published" by (simp add: stored0_def)
  have h3: "backend env_down (sent world0)
        (update_request (Some (lit ''PO''))
          (draft0\<lparr>title := lit ''B'', published := True, jira_key := Some (lit ''PO-1'')\<rparr>)) = Rejected"
    by (simp add: env_down_def)
  from published_story_not_editable[where
      s = "draft0\<lparr>published := True, jira_key := Some (lit ''PO-1'')\<rparr>" and ss = stored0
      and new_title = "Some (lit ''B'')" and new_description = None and now = 3
      and e = env_down and w = world0 and selectedProject = "Some (lit ''PO'')"
      and es = "draft0\<lparr>title := lit ''B'', published := True, jira_key := Some (lit ''PO-1'')\<rparr>"
      and st = "view0\<lparr>stories := [draft0\<lparr>published := True, jira_key := Some (lit ''PO-1'')\<rparr>]\<rparr>"]
    h1 h2 h3
  show ?thesis by simp
qed

section \<open>The Publish button while requests are in flight\<close>

text \<open>The two halves make up \<open>handlePublish\<close>.\<close>

lemma handlePublish_split:
  "p \<noteq> [] \<Longrightarrow>
   fst (handlePublish e (Some p) (st, w) s) =
     publish_settle (fst (publish_begin p st s)) s (backend e (sent w) (snd (publish_begin p st s)))"
  by (simp add: handlePublish_def publish_begin_def publish_settle_def api_request_def
      publish_request_def Let_def split: response.splits)

text \<open>
  Right after a click on the Publish button of a story the same button is disabled, so an
  immediate second click on it is not possible.
\<close>

lemma double_click_blocked:
  "click_publish p y s = Some y' \<Longrightarrow> click_publish p y' s = None"
  by (auto simp: click_publish_def publish_begin_def publish_disabled_def split: if_splits)

text \<open>
  Claim C9 at a page that shows two draft stories. A click on Publish for the first story
  disables its button. A click on Publish for the second story enables it again while the
  first request is still in flight, because \<open>isPublishing\<close> holds one story id. A third
  click publishes the first story a second time: two publish requests for the same story
  are in flight together. When both are fulfilled, both answers are applied to the row,
  which keeps the key of the later one.
\<close>

theorem same_story_in_flight_twice:
  "\<exists>y1 y2 y3 y4 y5.
     click_publish (lit ''PO'') page0 draft0 = Some y1
     \<and> publish_disabled (view y1) draft0
     \<and> click_publish (lit ''PO'') y1 draft1 = Some y2
     \<and> inflight y2 = [draft0, draft1]
     \<and> \<not> publish_disabled (view y2) draft0
     \<and> click_publish (lit ''PO'') y2 draft0 = Some y3
     \<and> inflight y3 = [draft0, draft1, draft0]
     \<and> requested y3 = [publish_request (lit ''PO'') draft0, publish_request (lit ''PO'') draft1,
          publish_request (lit ''PO'') draft0]
     \<and> settle y3 draft0 (Resolved (PublishData (lit ''PO-1''))) = Some y4
     \<and> settle y4 draft0 (Resolved (PublishData (lit ''PO-2''))) = Some y5
     \<and> stories (view y5) = [draft0\<lparr>published := True, jira_key := Some (lit ''PO-2'')\<rparr>, draft1]"
  by (simp add: click_publish_def publish_begin_def publish_disabled_def settle_def
      publish_settle_def data_jira_key_def page0_def draft0_def draft1_def lit_def)

section \<open>A chat turn whose request fails\<close>

text \<open>
  Claim C6. When the \<open>/chat\<close> request of a chat turn is rejected, the turn adds exactly
  two messages: the user's own and one assistant message whose content is the text
  "Failed to process your message. Please try again." and which carries no stories; no
  request other than the \<open>/chat\<close> request is sent, so nothing is stored for the turn.
\<close>

theorem handleSend_generation_error:
  assumes "trim (input st) \<noteq> []" and "p \<noteq> []"
    and "backend e (sent w) (Post (lit ''/chat'') (ChatBody (input st) p)) = Rejected"
  shows "\<exists>um fm. messages (fst (handleSend e (Some p) (st, w))) = messages st @ [um, fm]
      \<and> msg_type um = User \<and> content um = Some (input st)
      \<and> msg_type fm = Assistant
      \<and> content fm = Some (lit ''Failed to process your message. Please try again.'')
      \<and> generatedStories fm = None
      \<and> sent (snd (handleSend e (Some p) (st, w))) =
          sent w @ [Post (lit ''/chat'') (ChatBody (input st) p)]"
  using assms
  by (simp add: handleSend_def date_now_def api_request_def console_error_def failure_text_def
      Let_def)

theorem handleSend_generation_error_witness:
  "trim (input chat_hi) \<noteq> [] \<and> lit ''PO'' \<noteq> []
   \<and> backend env_down (sent world0) (Post (lit ''/chat'') (ChatBody (input chat_hi) (lit ''PO'')))
       = Rejected
   \<and> (\<exists>um fm. messages (fst (handleSend env_down (Some (lit ''PO'')) (chat_hi, world0))) = [um, fm]
      \<and> msg_type um = User \<and> content um = Some (lit ''hi'')
      \<and> msg_type fm = Assistant
      \<and> content fm = Some (lit ''Failed to process your message. Please try again.'')
      \<and> generatedStories fm = None
      \<and> sent (snd (handleSend env_down (Some (lit ''PO'')) (chat_hi, world0))) =
          [Post (lit ''/chat'') (ChatBody (lit ''hi'') (lit ''PO''))])"
proof -
  have h1: "trim (input chat_hi) \<noteq> []"
    by (simp add: chat_hi_def trim_def lit_def is_white_space_def is_line_terminator_def)
  have h2: "lit ''PO'' \<noteq> []"
    by (simp add: lit_def)
  have h3: "backend env_down (sent world0)
      (Post (lit ''/chat'') (ChatBody (input chat_hi) (lit ''PO''))) = Rejected"
    by (simp add: env_down_def)
  from handleSend_generation_error[OF h1 h2 h3] h1 h2 h3 show ?thesis
    by (simp add: chat_hi_def world0_def)
qed

end
